theory Spec2Isabelle
  imports Complex_Main "HOL-Library.Word"
begin

section \<open>Machine types and faults\<close>

text \<open>
  The embedding is of the instantiation
  \<^verbatim>\<open>ConvImpl<ConvData, uint8_t, int32_t, int32_t>\<close> of
  \<^verbatim>\<open>src/armnn/backends/RefWorkloads/ConvImpl.hpp\<close>: the element type is an unsigned 8-bit
  value, bias and accumulator are signed 32-bit values, every index is an
  \<^verbatim>\<open>unsigned int\<close> (32 bits, wrapping). A signed 32-bit value is a \<open>32 word\<close> read with
  \<open>sint\<close>.
\<close>

type_synonym u8 = "8 word"
type_synonym u32 = "32 word"
type_synonym i32 = "32 word"

text \<open>
  What ends a run other than by returning: the \<^verbatim>\<open>BOOST_ASSERT\<close>, the two exceptions of
  \<^verbatim>\<open>boost::numeric_cast\<close>, and the undefined behaviours of C++ that the code can reach
  (a read or write outside a buffer, the null bias pointer, signed overflow, division by
  zero), each one a value.
\<close>

datatype error =
    AssertionFailed
  | NegativeOverflow
  | PositiveOverflow
  | OutOfBounds
  | NullPointer
  | SignedOverflow
  | DivideByZero

definition bind :: "error + 'a \<Rightarrow> ('a \<Rightarrow> error + 'b) \<Rightarrow> error + 'b" where
  "bind m f = (case m of Inl e \<Rightarrow> Inl e | Inr v \<Rightarrow> f v)"

definition in_i32 :: "int \<Rightarrow> bool" where
  "in_i32 v \<longleftrightarrow> - (2 ^ 31) \<le> v \<and> v < 2 ^ 31"

text \<open>The result of an \<^verbatim>\<open>int32_t\<close> operation whose mathematical value is \<open>v\<close>.\<close>

definition i32_of :: "int \<Rightarrow> error + i32" where
  "i32_of v = (if in_i32 v then Inr (word_of_int v) else Inl SignedOverflow)"

definition i32_add :: "i32 \<Rightarrow> i32 \<Rightarrow> error + i32" where
  "i32_add x y = i32_of (sint x + sint y)"

definition i32_mul :: "i32 \<Rightarrow> i32 \<Rightarrow> error + i32" where
  "i32_mul x y = i32_of (sint x * sint y)"

text \<open>
  \<^verbatim>\<open>buffer[i] - boost::numeric_cast<int32_t>(offset)\<close>: the \<^verbatim>\<open>uint8_t\<close> is promoted to
  \<^verbatim>\<open>int\<close>, the cast of an \<^verbatim>\<open>int32_t\<close> to \<^verbatim>\<open>int32_t\<close> is the identity.
\<close>

definition sub_offset :: "u8 \<Rightarrow> i32 \<Rightarrow> error + i32" where
  "sub_offset v offset = i32_of (uint v - sint offset)"

text \<open>\<^verbatim>\<open>std::max\<close> and \<^verbatim>\<open>std::min\<close> at \<^verbatim>\<open>int32_t\<close>.\<close>

definition i32_max :: "i32 \<Rightarrow> i32 \<Rightarrow> i32" where
  "i32_max x y = (if sint x < sint y then y else x)"

definition i32_min :: "i32 \<Rightarrow> i32 \<Rightarrow> i32" where
  "i32_min x y = (if sint y < sint x then y else x)"

text \<open>\<^verbatim>\<open>boost::numeric_cast<uint8_t>\<close> of an \<^verbatim>\<open>int32_t\<close>: range-checked, it throws.\<close>

definition numeric_cast_u8 :: "i32 \<Rightarrow> error + u8" where
  "numeric_cast_u8 s =
     (if sint s < 0 then Inl NegativeOverflow
      else if 255 < sint s then Inl PositiveOverflow
      else Inr (word_of_int (sint s)))"

text \<open>A buffer is a list; an access outside it is a fault.\<close>

definition read_at :: "'a list \<Rightarrow> u32 \<Rightarrow> error + 'a" where
  "read_at buf i = (if unat i < length buf then Inr (buf ! unat i) else Inl OutOfBounds)"

definition write_at :: "'a list \<Rightarrow> u32 \<Rightarrow> 'a \<Rightarrow> error + 'a list" where
  "write_at buf i v = (if unat i < length buf then Inr (buf[unat i := v]) else Inl OutOfBounds)"

text \<open>\<^verbatim>\<open>for (unsigned int i = 0; i < n; i++)\<close> with a body that does not assign \<open>i\<close>.\<close>

definition range_u32 :: "u32 \<Rightarrow> u32 list" where
  "range_u32 n = map of_nat [0..<unat n]"

primrec for_each :: "'i list \<Rightarrow> ('i \<Rightarrow> 's \<Rightarrow> error + 's) \<Rightarrow> 's \<Rightarrow> error + 's" where
  "for_each [] body s = Inr s"
| "for_each (i # is) body s = bind (body i s) (for_each is body)"

text \<open>The same loop around a body that may not return (\<open>None\<close>).\<close>

primrec for_each_opt ::
  "'i list \<Rightarrow> ('i \<Rightarrow> 's \<Rightarrow> (error + 's) option) \<Rightarrow> 's \<Rightarrow> (error + 's) option" where
  "for_each_opt [] body s = Some (Inr s)"
| "for_each_opt (i # is) body s =
     (case body i s of
        None \<Rightarrow> None
      | Some (Inl e) \<Rightarrow> Some (Inl e)
      | Some (Inr s') \<Rightarrow> for_each_opt is body s')"

section \<open>Data model\<close>

text \<open>
  Modelled from the spec: \<^verbatim>\<open>TensorShape\<close> (declared in \<^verbatim>\<open>armnn/Tensor.hpp\<close>, not part of
  the sources at hand) is the ordered sequence of dimension sizes in the layout
  batch, channel, height, width; \<open>dim0\<close> .. \<open>dim3\<close> are \<^verbatim>\<open>GetShape()[0]\<close> .. \<^verbatim>\<open>GetShape()[3]\<close>.
\<close>

record TensorShape =
  dim0 :: u32
  dim1 :: u32
  dim2 :: u32
  dim3 :: u32

text \<open>The fields of \<^verbatim>\<open>data.m_Parameters\<close> that the kernel reads.\<close>

record Parameters =
  m_PadTop :: u32
  m_PadLeft :: u32
  m_StrideY :: u32
  m_StrideX :: u32
  m_BiasEnabled :: bool

text \<open>
  \<^verbatim>\<open>ConvData\<close>: the shapes of \<^verbatim>\<open>m_Inputs[0]\<close>, \<^verbatim>\<open>m_Outputs[0]\<close> and \<^verbatim>\<open>m_Weight\<close>, and the
  parameters.
\<close>

record ConvData =
  m_Inputs0 :: TensorShape
  m_Outputs0 :: TensorShape
  m_Weight :: TensorShape
  m_Parameters :: Parameters

text \<open>
  The arguments of \<^verbatim>\<open>ConvImpl\<close> other than the output buffer. A \<^verbatim>\<open>float\<close> scale is a
  real number: the kernel only compares \<^verbatim>\<open>outputScale\<close> with zero and hands
  \<^verbatim>\<open>(inputScale * filterScale) / outputScale\<close> to the multiplier. The bias pointer may be
  null (\<open>None\<close>).
\<close>

record args =
  data :: ConvData
  inputData :: "u8 list"
  inputScale :: real
  inputOffset :: i32
  filterData :: "u8 list"
  filterScale :: real
  filterOffset :: i32
  biasData :: "i32 list option"
  outputScale :: real
  outputOffset :: i32
  depthwise :: bool

text \<open>
  \<^verbatim>\<open>QuantizedMultiplierSmallerThanOne\<close> is declared in the header and defined elsewhere:
  the kernel takes it as a parameter \<open>Q\<close>, from the multiplier to either a failed
  assertion of the constructor or the function \<^verbatim>\<open>operator*\<close> of the constructed value.
\<close>

type_synonym multiplier = "real \<Rightarrow> error + (i32 \<Rightarrow> i32)"

section \<open>The kernel\<close>

subsection \<open>The locals computed before the loops (lines 64 to 82)\<close>

definition depthMult :: "args \<Rightarrow> u32" where
  "depthMult a = (if depthwise a then dim0 (m_Weight (data a)) else 1)"

definition channelsInput :: "args \<Rightarrow> u32" where
  "channelsInput a = dim1 (m_Weight (data a))"

definition channelsOutput :: "args \<Rightarrow> u32" where
  "channelsOutput a =
     (if depthwise a then channelsInput a * depthMult a else dim0 (m_Weight (data a)))"

definition batchSize :: "args \<Rightarrow> u32" where
  "batchSize a = dim0 (m_Outputs0 (data a))"

definition heightOutput :: "args \<Rightarrow> u32" where
  "heightOutput a = dim2 (m_Outputs0 (data a))"

definition widthOutput :: "args \<Rightarrow> u32" where
  "widthOutput a = dim3 (m_Outputs0 (data a))"

definition heightInput :: "args \<Rightarrow> u32" where
  "heightInput a = dim2 (m_Inputs0 (data a))"

definition widthInput :: "args \<Rightarrow> u32" where
  "widthInput a = dim3 (m_Inputs0 (data a))"

definition heightFilter :: "args \<Rightarrow> u32" where
  "heightFilter a = dim2 (m_Weight (data a))"

definition widthFilter :: "args \<Rightarrow> u32" where
  "widthFilter a = dim3 (m_Weight (data a))"

definition paddingTop :: "args \<Rightarrow> u32" where
  "paddingTop a = m_PadTop (m_Parameters (data a))"

definition paddingLeft :: "args \<Rightarrow> u32" where
  "paddingLeft a = m_PadLeft (m_Parameters (data a))"

definition hStride :: "args \<Rightarrow> u32" where
  "hStride a = m_StrideY (m_Parameters (data a))"

definition xStride :: "args \<Rightarrow> u32" where
  "xStride a = m_StrideX (m_Parameters (data a))"

definition biasEnabled :: "args \<Rightarrow> bool" where
  "biasEnabled a = m_BiasEnabled (m_Parameters (data a))"

subsection \<open>One position of the kernel window (lines 113 to 152)\<close>

definition filterIndex :: "args \<Rightarrow> u32 \<Rightarrow> u32 \<Rightarrow> u32 \<Rightarrow> u32 \<Rightarrow> u32 \<Rightarrow> u32" where
  "filterIndex a cOutput cInput depthwiseMultiplierIdx yFilter xFilter =
     (if depthwise a
      then depthwiseMultiplierIdx * widthFilter a * heightFilter a * channelsInput a +
           cInput * widthFilter a * heightFilter a +
           yFilter * widthFilter a +
           xFilter
      else cOutput * widthFilter a * heightFilter a * channelsInput a +
           cInput * widthFilter a * heightFilter a +
           yFilter * widthFilter a +
           xFilter)"

definition in_padding :: "args \<Rightarrow> u32 \<Rightarrow> u32 \<Rightarrow> bool" where
  "in_padding a yInput xInput \<longleftrightarrow>
     yInput < paddingTop a \<or> yInput \<ge> heightInput a + paddingTop a \<or>
     xInput < paddingLeft a \<or> xInput \<ge> widthInput a + paddingLeft a"

definition inputIndex :: "args \<Rightarrow> u32 \<Rightarrow> u32 \<Rightarrow> u32 \<Rightarrow> u32 \<Rightarrow> u32" where
  "inputIndex a batchIdx cInput yInput xInput =
     batchIdx * widthInput a * heightInput a * channelsInput a +
     widthInput a * heightInput a * cInput +
     widthInput a * (yInput - paddingTop a) +
     xInput - paddingLeft a"

definition filterValue_at :: "args \<Rightarrow> u32 \<Rightarrow> error + i32" where
  "filterValue_at a i = bind (read_at (filterData a) i) (\<lambda>f. sub_offset f (filterOffset a))"

definition inputValue_at :: "args \<Rightarrow> u32 \<Rightarrow> u32 \<Rightarrow> u32 \<Rightarrow> u32 \<Rightarrow> error + i32" where
  "inputValue_at a batchIdx cInput yInput xInput =
     (if in_padding a yInput xInput then Inr 0
      else bind (read_at (inputData a) (inputIndex a batchIdx cInput yInput xInput))
             (\<lambda>v. sub_offset v (inputOffset a)))"

text \<open>
  The body of the \<^verbatim>\<open>xFilter\<close> loop: the new value of \<^verbatim>\<open>sum\<close>, which is written \<open>acc\<close>
  here.
\<close>

definition window_step ::
  "args \<Rightarrow> u32 \<Rightarrow> u32 \<Rightarrow> u32 \<Rightarrow> u32 \<Rightarrow> u32 \<Rightarrow> u32 \<Rightarrow> u32 \<Rightarrow> u32 \<Rightarrow> i32 \<Rightarrow> error + i32" where
  "window_step a batchIdx cOutput yOutput xOutput cInput depthwiseMultiplierIdx yFilter xFilter acc =
     bind (filterValue_at a (filterIndex a cOutput cInput depthwiseMultiplierIdx yFilter xFilter))
       (\<lambda>filterValue.
     bind (inputValue_at a batchIdx cInput
             (yOutput * hStride a + yFilter) (xOutput * xStride a + xFilter))
       (\<lambda>inputValue.
     bind (i32_mul filterValue inputValue) (i32_add acc)))"

subsection \<open>The loops over the window and over the input channels (lines 98 to 155)\<close>

definition window_loops ::
  "args \<Rightarrow> u32 \<Rightarrow> u32 \<Rightarrow> u32 \<Rightarrow> u32 \<Rightarrow> u32 \<Rightarrow> u32 \<Rightarrow> i32 \<Rightarrow> error + i32" where
  "window_loops a batchIdx cOutput yOutput xOutput cInput depthwiseMultiplierIdx =
     for_each (range_u32 (heightFilter a)) (\<lambda>yFilter.
       for_each (range_u32 (widthFilter a)) (\<lambda>xFilter.
         window_step a batchIdx cOutput yOutput xOutput cInput depthwiseMultiplierIdx
           yFilter xFilter))"

text \<open>
  The \<^verbatim>\<open>cInput\<close> loop assigns its own counter in the depthwise case, so it is a loop on
  the counter itself: it runs while \<^verbatim>\<open>cInput < (depthwise ? 1 : channelsInput)\<close>, and
  \<open>None\<close> is the loop that does not end.
\<close>

partial_function (option) cInput_loop ::
  "args \<Rightarrow> u32 \<Rightarrow> u32 \<Rightarrow> u32 \<Rightarrow> u32 \<Rightarrow> u32 \<Rightarrow> i32 \<Rightarrow> (error + i32) option" where
  "cInput_loop a batchIdx cOutput yOutput xOutput cInput acc =
     (if cInput < (if depthwise a then 1 else channelsInput a) then
        (if depthwise a \<and> depthMult a = 0 then Some (Inl DivideByZero)
         else
           (case window_loops a batchIdx cOutput yOutput xOutput
                   (if depthwise a then cOutput div depthMult a else cInput)
                   (if depthwise a then cOutput mod depthMult a else 0) acc of
              Inl e \<Rightarrow> Some (Inl e)
            | Inr acc' \<Rightarrow>
                cInput_loop a batchIdx cOutput yOutput xOutput
                  ((if depthwise a then cOutput div depthMult a else cInput) + 1) acc'))
      else Some (Inr acc))"

declare cInput_loop.simps [code]

subsection \<open>One output element (lines 94 to 177)\<close>

definition read_bias :: "args \<Rightarrow> u32 \<Rightarrow> error + i32" where
  "read_bias a cOutput =
     (case biasData a of None \<Rightarrow> Inl NullPointer | Some bias \<Rightarrow> read_at bias cOutput)"

definition add_bias :: "args \<Rightarrow> u32 \<Rightarrow> i32 \<Rightarrow> error + i32" where
  "add_bias a cOutput acc =
     (if biasEnabled a then bind (read_bias a cOutput) (i32_add acc) else Inr acc)"

text \<open>The accumulator after the bias (line 160).\<close>

definition accumulate :: "args \<Rightarrow> u32 \<Rightarrow> u32 \<Rightarrow> u32 \<Rightarrow> u32 \<Rightarrow> (error + i32) option" where
  "accumulate a batchIdx cOutput yOutput xOutput =
     map_option (\<lambda>r. bind r (add_bias a cOutput))
       (cInput_loop a batchIdx cOutput yOutput xOutput 0 0)"

definition requantize :: "multiplier \<Rightarrow> args \<Rightarrow> i32 \<Rightarrow> error + i32" where
  "requantize Q a acc =
     (if outputScale a \<noteq> 0 then
        bind (Q ((inputScale a * filterScale a) / outputScale a)) (\<lambda>mul.
        bind (i32_add (mul acc) (outputOffset a)) (\<lambda>acc'.
        Inr (i32_min (i32_max acc' 0) 255)))
      else Inr acc)"

text \<open>The value stored for one output coordinate (the right-hand side of line 177).\<close>

definition conv_element ::
  "multiplier \<Rightarrow> args \<Rightarrow> u32 \<Rightarrow> u32 \<Rightarrow> u32 \<Rightarrow> u32 \<Rightarrow> (error + u8) option" where
  "conv_element Q a batchIdx cOutput yOutput xOutput =
     map_option (\<lambda>r. bind r (\<lambda>acc. bind (requantize Q a acc) numeric_cast_u8))
       (accumulate a batchIdx cOutput yOutput xOutput)"

definition outputIndex :: "args \<Rightarrow> u32 \<Rightarrow> u32 \<Rightarrow> u32 \<Rightarrow> u32 \<Rightarrow> u32" where
  "outputIndex a batchIdx cOutput yOutput xOutput =
     batchIdx * widthOutput a * heightOutput a * channelsOutput a +
     widthOutput a * heightOutput a * cOutput +
     widthOutput a * yOutput +
     xOutput"

definition store_element ::
  "multiplier \<Rightarrow> args \<Rightarrow> u32 \<Rightarrow> u32 \<Rightarrow> u32 \<Rightarrow> u32 \<Rightarrow> u8 list \<Rightarrow> (error + u8 list) option" where
  "store_element Q a batchIdx cOutput yOutput xOutput outputData =
     map_option
       (\<lambda>r. bind r (write_at outputData (outputIndex a batchIdx cOutput yOutput xOutput)))
       (conv_element Q a batchIdx cOutput yOutput xOutput)"

subsection \<open>The whole function\<close>

definition ConvImpl :: "multiplier \<Rightarrow> args \<Rightarrow> u8 list \<Rightarrow> (error + u8 list) option" where
  "ConvImpl Q a outputData =
     (if \<not> (biasEnabled a = False \<or> biasData a \<noteq> None) then Some (Inl AssertionFailed)
      else
        for_each_opt (range_u32 (batchSize a)) (\<lambda>batchIdx.
          for_each_opt (range_u32 (channelsOutput a)) (\<lambda>cOutput.
            for_each_opt (range_u32 (heightOutput a)) (\<lambda>yOutput.
              for_each_opt (range_u32 (widthOutput a)) (\<lambda>xOutput.
                store_element Q a batchIdx cOutput yOutput xOutput))))
          outputData)"

section \<open>The doubling high multiplication of the fixed-point multiplier\<close>

text \<open>
  Modelled from the spec: \<^verbatim>\<open>SaturatingRoundingDoublingHighMul\<close> is declared at line 36 and
  defined outside the sources at hand. The spec describes it as the high 32 bits of the
  signed 64-bit doubled product, rounded to nearest, with saturation to the largest
  \<^verbatim>\<open>int32_t\<close> when both operands are the most negative \<^verbatim>\<open>int32_t\<close>. Rounding to nearest is
  adding half of \<open>2 ^ 32\<close> before taking the high bits.
\<close>

definition SaturatingRoundingDoublingHighMul :: "i32 \<Rightarrow> i32 \<Rightarrow> i32" where
  "SaturatingRoundingDoublingHighMul a b =
     (if sint a = - (2 ^ 31) \<and> sint b = - (2 ^ 31) then word_of_int (2 ^ 31 - 1)
      else word_of_int ((2 * (sint a * sint b) + 2 ^ 31) div 2 ^ 32))"

section \<open>Vocabulary of the statements\<close>

text \<open>
  The four nested output loops visit the coordinates \<open>coords\<close> in this order; each visit
  stores one value \<open>val k\<close> at one index \<open>idx k\<close>.
\<close>

definition store_at :: "('k \<Rightarrow> u32) \<Rightarrow> ('k \<Rightarrow> (error + 'v) option) \<Rightarrow> 'k \<Rightarrow> 'v list \<Rightarrow> (error + 'v list) option" where
  "store_at idx val = (\<lambda>k buf. map_option (\<lambda>r. bind r (write_at buf (idx k))) (val k))"

text \<open>The flat index of a coordinate in the layout batch, channel, height, width.\<close>

definition flat_index :: "nat \<Rightarrow> nat \<Rightarrow> nat \<Rightarrow> nat \<Rightarrow> nat \<Rightarrow> nat \<Rightarrow> nat \<Rightarrow> nat" where
  "flat_index C H W b c y x = ((b * C + c) * H + y) * W + x"

definition coords :: "args \<Rightarrow> (u32 \<times> u32 \<times> u32 \<times> u32) list" where
  "coords a = List.product (range_u32 (batchSize a)) (List.product (range_u32 (channelsOutput a))
                (List.product (range_u32 (heightOutput a)) (range_u32 (widthOutput a))))"

text \<open>The number of elements that the output shape describes.\<close>

definition output_size :: "args \<Rightarrow> nat" where
  "output_size a = unat (batchSize a) * unat (channelsOutput a) * unat (heightOutput a) * unat (widthOutput a)"

text \<open>
  What the loop over the input channels returns for an output channel of the kernel's loop:
  the window sum of one channel (depthwise) or of all channels in turn (standard).
\<close>

definition window_sum :: "args \<Rightarrow> u32 \<Rightarrow> u32 \<Rightarrow> u32 \<Rightarrow> u32 \<Rightarrow> error + i32" where
  "window_sum a batchIdx cOutput yOutput xOutput =
     (if depthwise a
      then window_loops a batchIdx cOutput yOutput xOutput
             (cOutput div depthMult a) (cOutput mod depthMult a) 0
      else for_each (range_u32 (channelsInput a))
             (\<lambda>cInput. window_loops a batchIdx cOutput yOutput xOutput cInput 0) 0)"

text \<open>
  The number of input elements that the kernel addresses: its batch count is the one of the
  output shape, its channel count the one of the filter shape.
\<close>

definition input_size :: "args \<Rightarrow> nat" where
  "input_size a =
     unat (batchSize a) * unat (channelsInput a) * unat (heightInput a) * unat (widthInput a)"

text \<open>The whole kernel window of an output position lies in the padding.\<close>

definition window_in_padding :: "args \<Rightarrow> u32 \<Rightarrow> u32 \<Rightarrow> bool" where
  "window_in_padding a yOutput xOutput \<longleftrightarrow>
     list_all (\<lambda>yFilter.
       list_all (\<lambda>xFilter.
         in_padding a (yOutput * hStride a + yFilter) (xOutput * xStride a + xFilter))
         (range_u32 (widthFilter a)))
       (range_u32 (heightFilter a))"

subsection \<open>The channels of a depthwise job run one by one\<close>

text \<open>
  A depthwise job on a two-channel input with depth multiplier 1: the filter shape is
  \<open>[1, 2, kH, kW]\<close>.
\<close>

definition two_channel_depthwise :: "args \<Rightarrow> bool" where
  "two_channel_depthwise a \<longleftrightarrow>
     depthwise a \<and> dim0 (m_Weight (data a)) = 1 \<and> dim1 (m_Weight (data a)) = 2"

text \<open>
  Channel \<open>c\<close> of a buffer laid out as \<open>N\<close> batches of \<open>C\<close> channels of \<open>HW\<close> elements.
\<close>

definition channel_slice :: "nat \<Rightarrow> nat \<Rightarrow> nat \<Rightarrow> nat \<Rightarrow> 'a list \<Rightarrow> 'a list" where
  "channel_slice N C HW c xs = concat (map (\<lambda>b. take HW (drop ((b * C + c) * HW) xs)) [0..<N])"

text \<open>
  The standard convolution of channel \<open>c\<close> alone: every channel count is 1, the input is
  the channel's slice of the input, the filter the channel's slice of the filter, the bias
  the channel's bias, and the standard path is taken.
\<close>

definition channel_args :: "args \<Rightarrow> u32 \<Rightarrow> args" where
  "channel_args a c =
     a\<lparr>data := (data a)\<lparr>
          m_Inputs0 := (m_Inputs0 (data a))\<lparr>dim1 := 1\<rparr>,
          m_Outputs0 := (m_Outputs0 (data a))\<lparr>dim1 := 1\<rparr>,
          m_Weight := (m_Weight (data a))\<lparr>dim0 := 1, dim1 := 1\<rparr>\<rparr>,
       inputData := channel_slice (unat (batchSize a)) (unat (channelsInput a))
                      (unat (heightInput a) * unat (widthInput a)) (unat c) (inputData a),
       filterData := take (unat (heightFilter a) * unat (widthFilter a))
                       (drop (unat c * (unat (heightFilter a) * unat (widthFilter a))) (filterData a)),
       biasData := map_option (\<lambda>bias. take 1 (drop (unat c) bias)) (biasData a),
       depthwise := False\<rparr>"

text \<open>
  The two per-channel results put together along the channel dimension: in every batch the
  \<open>HW\<close> elements of channel 0, then those of channel 1.
\<close>

definition concat_channels :: "nat \<Rightarrow> nat \<Rightarrow> 'a list \<Rightarrow> 'a list \<Rightarrow> 'a list" where
  "concat_channels N HW o0 o1 =
     concat (map (\<lambda>b. take HW (drop (b * HW) o0) @ take HW (drop (b * HW) o1)) [0..<N])"

section \<open>Concrete inputs\<close>

definition shape :: "u32 \<Rightarrow> u32 \<Rightarrow> u32 \<Rightarrow> u32 \<Rightarrow> TensorShape" where
  "shape n c h w = \<lparr>dim0 = n, dim1 = c, dim2 = h, dim3 = w\<rparr>"

text \<open>
  The input \<open>[[1, 2], [3, 4]]\<close> (one batch, one channel) under a 1 by 1 filter of value 1,
  stride 1, no padding, no bias, all offsets zero and \<^verbatim>\<open>outputScale == 0\<close>.
\<close>

definition identity_args :: args where
  "identity_args =
     \<lparr>data = \<lparr>m_Inputs0 = shape 1 1 2 2, m_Outputs0 = shape 1 1 2 2, m_Weight = shape 1 1 1 1,
              m_Parameters = \<lparr>m_PadTop = 0, m_PadLeft = 0, m_StrideY = 1, m_StrideX = 1,
                              m_BiasEnabled = False\<rparr>\<rparr>,
      inputData = [1, 2, 3, 4], inputScale = 0, inputOffset = 0,
      filterData = [1], filterScale = 0, filterOffset = 0,
      biasData = None, outputScale = 0, outputOffset = 0, depthwise = False\<rparr>"

text \<open>
  A depthwise job: two input channels of 2 by 2, depth multiplier 2 (four output channels),
  a 1 by 1 filter per channel and multiplier index, one row and one column of padding,
  input zero-point 2, bias enabled.
\<close>

definition depthwise_args :: args where
  "depthwise_args =
     \<lparr>data = \<lparr>m_Inputs0 = shape 1 2 2 2, m_Outputs0 = shape 1 4 3 3, m_Weight = shape 2 2 1 1,
              m_Parameters = \<lparr>m_PadTop = 1, m_PadLeft = 1, m_StrideY = 1, m_StrideX = 1,
                              m_BiasEnabled = True\<rparr>\<rparr>,
      inputData = [3, 4, 5, 6, 7, 8, 9, 10], inputScale = 0, inputOffset = 2,
      filterData = [1, 2, 3, 4], filterScale = 0, filterOffset = 0,
      biasData = Some [10, 20, 30, 40], outputScale = 0, outputOffset = 0, depthwise = True\<rparr>"

text \<open>
  A quantized job with a nonzero zero-point on every tensor and a bias, and a stand-in for
  the multiplier that leaves its operand unchanged.
\<close>

definition quantized_args :: args where
  "quantized_args =
     \<lparr>data = \<lparr>m_Inputs0 = shape 1 1 2 2, m_Outputs0 = shape 1 1 2 2, m_Weight = shape 1 1 1 1,
              m_Parameters = \<lparr>m_PadTop = 0, m_PadLeft = 0, m_StrideY = 1, m_StrideX = 1,
                              m_BiasEnabled = True\<rparr>\<rparr>,
      inputData = [200, 100, 7, 0], inputScale = 1 / 2, inputOffset = 10,
      filterData = [5], filterScale = 1 / 2, filterOffset = 2,
      biasData = Some [4], outputScale = 1 / 2, outputOffset = 20, depthwise = False\<rparr>"

definition unit_multiplier :: multiplier where
  "unit_multiplier m = Inr (\<lambda>x. x)"

text \<open>
  A standard job whose 2 by 2 window at the output position (0, 0) covers padding only; the
  input zero-point is 3 and every input value is nonzero.
\<close>

definition padded_args :: args where
  "padded_args =
     \<lparr>data = \<lparr>m_Inputs0 = shape 1 1 2 2, m_Outputs0 = shape 1 1 3 3, m_Weight = shape 1 1 2 2,
              m_Parameters = \<lparr>m_PadTop = 2, m_PadLeft = 2, m_StrideY = 1, m_StrideX = 1,
                              m_BiasEnabled = False\<rparr>\<rparr>,
      inputData = [5, 6, 7, 8], inputScale = 0, inputOffset = 3,
      filterData = [1, 1, 1, 1], filterScale = 0, filterOffset = 0,
      biasData = None, outputScale = 0, outputOffset = 0, depthwise = False\<rparr>"

text \<open>
  A depthwise job with depth multiplier 1 on two batches of two channels, a 2 by 2 filter per
  channel, bias and quantization; the output keeps the input extent, so the last row and the
  last column of the windows are in the padding.
\<close>

definition two_channel_args :: args where
  "two_channel_args =
     \<lparr>data = \<lparr>m_Inputs0 = shape 2 2 2 2, m_Outputs0 = shape 2 2 2 2, m_Weight = shape 1 2 2 2,
              m_Parameters = \<lparr>m_PadTop = 0, m_PadLeft = 0, m_StrideY = 1, m_StrideX = 1,
                              m_BiasEnabled = True\<rparr>\<rparr>,
      inputData = [1, 2, 3, 4, 5, 6, 7, 8, 9, 10, 11, 12, 13, 14, 15, 16],
      inputScale = 1, inputOffset = 1,
      filterData = [1, 2, 3, 4, 2, 1, 2, 1], filterScale = 1, filterOffset = 1,
      biasData = Some [5, 7], outputScale = 1, outputOffset = 3, depthwise = True\<rparr>"

text \<open>
  Modelled from the spec: \<^verbatim>\<open>QuantizedMultiplierSmallerThanOne\<close> for the ratio \<open>1 - 2^-24\<close>, the
  largest \<^verbatim>\<open>float\<close> below 1. The spec decomposes the ratio into a significand in
  \<open>[2^30, 2^31)\<close> and a right shift, here \<open>2^31 - 128 = 2147483520\<close> and 0, and rescales by
  the doubling high multiplication with the significand followed by the rounding division
  by \<open>2 ^ shift\<close>, which is the identity at shift 0.
\<close>

definition near_one_multiplier :: multiplier where
  "near_one_multiplier m = Inr (SaturatingRoundingDoublingHighMul 2147483520)"

text \<open>
  A quantized job at the \<^verbatim>\<open>int32_t\<close> boundary: one output element whose window sum is 0 and
  whose bias is the largest \<^verbatim>\<open>int32_t\<close>, the ratio of the scales \<open>1 - 2^-24\<close>, output
  zero-point 255.
\<close>

definition boundary_args :: args where
  "boundary_args =
     \<lparr>data = \<lparr>m_Inputs0 = shape 1 1 1 1, m_Outputs0 = shape 1 1 1 1, m_Weight = shape 1 1 1 1,
              m_Parameters = \<lparr>m_PadTop = 0, m_PadLeft = 0, m_StrideY = 1, m_StrideX = 1,
                              m_BiasEnabled = True\<rparr>\<rparr>,
      inputData = [0], inputScale = 16777215 / 16777216, inputOffset = 0,
      filterData = [1], filterScale = 1, filterOffset = 0,
      biasData = Some [2147483647], outputScale = 1, outputOffset = 255, depthwise = False\<rparr>"

section \<open>Basic facts\<close>

lemma bind_Inl [simp]: "bind (Inl e) f = Inl e"
  by (simp add: bind_def)

lemma bind_Inr [simp]: "bind (Inr v) f = f v"
  by (simp add: bind_def)

lemma in_i32_sint [simp]: "in_i32 (sint (x :: i32))"
  using sint_ge [of x] sint_lt [of x] by (simp add: in_i32_def)

lemma i32_of_sint [simp]: "i32_of (sint (x :: i32)) = Inr x"
  by (simp add: i32_of_def)

lemma i32_add_zero [simp]: "i32_add x 0 = Inr x"
  by (simp add: i32_add_def)

lemma i32_mul_zero [simp]: "i32_mul x 0 = Inr 0"
  by (simp add: i32_mul_def i32_of_def in_i32_def)

lemma sint_i32_of_int:
  "- (2 ^ 31) \<le> v \<Longrightarrow> v < 2 ^ 31 \<Longrightarrow> sint (word_of_int v :: i32) = v"
  by (simp add: sint_sbintrunc' signed_take_bit_int_eq_self)

lemma unat_u32_less: "unat (n :: u32) < 2 ^ 32"
  using unsigned_less [of n, where 'a = nat] by simp

lemma of_nat_less_u32:
  "k \<le> unat (n :: u32) \<Longrightarrow> (of_nat k :: u32) < n \<longleftrightarrow> k < unat n"
  by (simp add: le_unat_uoi word_less_nat_alt)

section \<open>The loop over the input channels\<close>

lemma div_succ_not_less_one:
  assumes "(c :: u32) < n"
  shows "\<not> (c div d + 1 < 1)"
proof -
  have "unat c < unat n" using assms by (simp add: word_less_nat_alt)
  moreover have "unat (c div d) \<le> unat c" by (simp add: unat_div)
  ultimately have "unat (c div d) + 1 < 2 ^ 32"
    using unat_u32_less [of n] by simp
  then have "unat (c div d + 1) = unat (c div d) + 1"
    using unat_add_lem [of "c div d" 1] by simp
  then show ?thesis by (simp add: word_less_nat_alt)
qed

lemma depthMult_nonzero:
  assumes "depthwise a" "cOutput < channelsOutput a"
  shows "depthMult a \<noteq> 0"
proof
  assume "depthMult a = 0"
  then have "channelsOutput a = 0" using assms(1) by (simp add: channelsOutput_def)
  then show False using assms(2) by simp
qed

text \<open>
  Depthwise: the body runs once, at the channel \<open>cOutput div depthMult\<close>; the counter it
  leaves is not below 1, so the loop ends.
\<close>

lemma cInput_loop_depthwise:
  assumes "depthwise a" "cOutput < channelsOutput a"
  shows "cInput_loop a batchIdx cOutput yOutput xOutput 0 acc =
         Some (window_loops a batchIdx cOutput yOutput xOutput
                 (cOutput div depthMult a) (cOutput mod depthMult a) acc)"
proof (cases "window_loops a batchIdx cOutput yOutput xOutput
                 (cOutput div depthMult a) (cOutput mod depthMult a) acc")
  case (Inl e)
  then show ?thesis
    using assms depthMult_nonzero [OF assms]
    by (subst cInput_loop.simps) simp
next
  case (Inr acc')
  have stop: "cInput_loop a batchIdx cOutput yOutput xOutput (cOutput div depthMult a + 1) acc'
              = Some (Inr acc')"
    using assms(1) div_succ_not_less_one [OF assms(2)]
    by (subst cInput_loop.simps) simp
  show ?thesis
    using assms(1) depthMult_nonzero [OF assms] Inr stop
    by (subst cInput_loop.simps) simp
qed

text \<open>Standard: the body runs for the channels \<open>k\<close>, \<open>k + 1\<close>, ... below \<open>channelsInput\<close>.\<close>

lemma cInput_loop_standard_from:
  assumes "\<not> depthwise a"
  shows "n - k = d \<Longrightarrow> k \<le> n \<Longrightarrow> n = unat (channelsInput a) \<Longrightarrow>
         cInput_loop a batchIdx cOutput yOutput xOutput (of_nat k) acc =
         Some (for_each (map of_nat [k..<n])
                 (\<lambda>cInput. window_loops a batchIdx cOutput yOutput xOutput cInput 0) acc)"
proof (induction d arbitrary: k acc)
  case 0
  then have "k = n" by simp
  then have "\<not> ((of_nat k :: u32) < channelsInput a)" using 0 by simp
  then show ?case using assms \<open>k = n\<close>
    by (subst cInput_loop.simps) simp
next
  case (Suc d)
  then have lt: "k < n" by simp
  then have less: "(of_nat k :: u32) < channelsInput a"
    using Suc.prems by (simp add: of_nat_less_u32)
  have up: "[k..<n] = k # [Suc k..<n]" using lt by (simp add: upt_conv_Cons)
  have step: "\<And>acc'. cInput_loop a batchIdx cOutput yOutput xOutput (of_nat k + 1) acc' =
         Some (for_each (map of_nat [Suc k..<n])
                 (\<lambda>cInput. window_loops a batchIdx cOutput yOutput xOutput cInput 0) acc')"
    using Suc.IH [of "Suc k"] Suc.prems lt by (simp add: add.commute)
  show ?case
    using assms less step
    by (subst cInput_loop.simps) (simp add: up bind_def split: sum.splits)
qed

lemma cInput_loop_standard:
  assumes "\<not> depthwise a"
  shows "cInput_loop a batchIdx cOutput yOutput xOutput 0 acc =
         Some (for_each (range_u32 (channelsInput a))
                 (\<lambda>cInput. window_loops a batchIdx cOutput yOutput xOutput cInput 0) acc)"
  using cInput_loop_standard_from [OF assms, of "unat (channelsInput a)" 0 "unat (channelsInput a)"]
  by (simp add: range_u32_def)

section \<open>The output loops\<close>

lemma bind_eq_Inr: "bind m f = Inr y \<longleftrightarrow> (\<exists>v. m = Inr v \<and> f v = Inr y)"
  by (cases m) simp_all

lemma for_each_opt_append:
  "for_each_opt (xs @ ys) f s =
     (case for_each_opt xs f s of
        None \<Rightarrow> None
      | Some (Inl e) \<Rightarrow> Some (Inl e)
      | Some (Inr s') \<Rightarrow> for_each_opt ys f s')"
  by (induction xs arbitrary: s) (auto split: option.splits sum.splits)

lemma for_each_opt_map:
  "for_each_opt (map g xs) f s = for_each_opt xs (\<lambda>i. f (g i)) s"
  by (induction xs arbitrary: s) (auto split: option.splits sum.splits)

lemma for_each_opt_product:
  "for_each_opt xs (\<lambda>i. for_each_opt ys (f i)) s =
   for_each_opt (List.product xs ys) (\<lambda>(i, j). f i j) s"
  by (induction xs arbitrary: s)
     (auto simp: for_each_opt_append for_each_opt_map split: option.splits sum.splits)

lemma stores_result:
  assumes "for_each_opt ks (store_at idx val) s0 = Some (Inr s1)"
      and "distinct (map idx ks)"
  shows "length s1 = length s0 \<and>
         (\<forall>k \<in> set ks. unat (idx k) < length s0 \<and> val k = Some (Inr (s1 ! unat (idx k)))) \<and>
         (\<forall>i. i \<notin> unat ` idx ` set ks \<longrightarrow> s1 ! i = s0 ! i)"
  using assms
proof (induction ks arbitrary: s0)
  case Nil
  then show ?case by simp
next
  case (Cons k ks)
  from Cons.prems(1) obtain v where v: "val k = Some (Inr v)"
    by (auto simp: store_at_def bind_eq_Inr split: option.splits sum.splits)
  from Cons.prems(1) v have inb: "unat (idx k) < length s0"
    by (auto simp: store_at_def write_at_def split: if_splits)
  let ?s = "s0[unat (idx k) := v]"
  from Cons.prems(1) v inb have rest: "for_each_opt ks (store_at idx val) ?s = Some (Inr s1)"
    by (simp add: store_at_def write_at_def)
  from Cons.prems(2) have d: "distinct (map idx ks)" and fresh: "idx k \<notin> idx ` set ks"
    by simp_all
  note IH = Cons.IH [OF rest d]
  have "unat (idx k) \<notin> unat ` idx ` set ks"
    using fresh by (auto simp: word_unat_eq_iff)
  then have "s1 ! unat (idx k) = ?s ! unat (idx k)" using IH by blast
  then have here: "s1 ! unat (idx k) = v" using inb by simp
  show ?case using IH v inb here by auto
qed



lemma radix_less: "x < W \<Longrightarrow> q < Q \<Longrightarrow> q * W + x < Q * (W :: nat)"
proof -
  assume a: "x < W" "q < Q"
  then have "Suc q * W \<le> Q * W" by (intro mult_le_mono1) simp
  then show ?thesis using a by simp
qed

lemma radix_inj:
  assumes "x < W" "x' < W" "q * W + x = q' * W + (x' :: nat)"
  shows "q = q' \<and> x = x'"
proof -
  have "(q * W + x) div W = q" "(q' * W + x') div W = q'" using assms(1,2) by simp_all
  then have "q = q'" using assms(3) by simp
  then show ?thesis using assms(3) by simp
qed

lemma flat_index_less:
  assumes "b < N" "c < C" "y < H" "x < W"
  shows "flat_index C H W b c y x < N * C * H * W"
  unfolding flat_index_def
  by (intro radix_less assms)

lemma flat_index_inj:
  assumes "c < C" "y < H" "x < W" "c' < C" "y' < H" "x' < W"
      and "flat_index C H W b c y x = flat_index C H W b' c' y' x'"
  shows "b = b' \<and> c = c' \<and> y = y' \<and> x = x'"
proof -
  from assms(7) have 1: "(b * C + c) * H + y = (b' * C + c') * H + y'" and x: "x = x'"
    unfolding flat_index_def using radix_inj [OF assms(3) assms(6)] by blast+
  from 1 have 2: "b * C + c = b' * C + c'" and y: "y = y'"
    using radix_inj [OF assms(2) assms(5)] by blast+
  from 2 have "b = b' \<and> c = c'"
    using radix_inj [OF assms(1) assms(4)] by blast
  then show ?thesis using x y by simp
qed

lemma outputIndex_of_nat:
  "outputIndex a b c y x =
   of_nat (flat_index (unat (channelsOutput a)) (unat (heightOutput a)) (unat (widthOutput a))
            (unat b) (unat c) (unat y) (unat x))"
  by (simp add: outputIndex_def flat_index_def algebra_simps)

lemma unat_outputIndex:
  assumes "unat (batchSize a) * unat (channelsOutput a) * unat (heightOutput a) * unat (widthOutput a) \<le> 2 ^ 32"
      and "b < batchSize a" "c < channelsOutput a" "y < heightOutput a" "x < widthOutput a"
  shows "unat (outputIndex a b c y x) =
         flat_index (unat (channelsOutput a)) (unat (heightOutput a)) (unat (widthOutput a))
            (unat b) (unat c) (unat y) (unat x)"
proof -
  have "flat_index (unat (channelsOutput a)) (unat (heightOutput a)) (unat (widthOutput a))
            (unat b) (unat c) (unat y) (unat x)
        < unat (batchSize a) * unat (channelsOutput a) * unat (heightOutput a) * unat (widthOutput a)"
    using assms(2-5) by (intro flat_index_less) (simp_all add: word_less_nat_alt)
  then have "flat_index (unat (channelsOutput a)) (unat (heightOutput a)) (unat (widthOutput a))
            (unat b) (unat c) (unat y) (unat x) < 2 ^ LENGTH(32)"
    using assms(1) by simp
  then show ?thesis
    by (intro of_nat_inverse) (simp_all add: outputIndex_of_nat)
qed

lemma unat_of_nat_below: "k < unat (n :: u32) \<Longrightarrow> unat (of_nat k :: u32) = k"
  using le_unat_uoi [of k n] by simp

lemma set_range_u32: "set (range_u32 n) = {w. w < n}"
proof (intro set_eqI iffI)
  fix w assume "w \<in> set (range_u32 n)"
  then obtain k where "k < unat n" "w = of_nat k" by (auto simp: range_u32_def)
  then show "w \<in> {w. w < n}" by (simp add: word_less_nat_alt unat_of_nat_below)
next
  fix w assume "w \<in> {w. w < n}"
  then have "unat w < unat n" by (simp add: word_less_nat_alt)
  then have "w \<in> (of_nat :: nat \<Rightarrow> u32) ` set [0..<unat n]"
    by (intro image_eqI [where x = "unat w"]) simp_all
  then show "w \<in> set (range_u32 n)" by (simp add: range_u32_def)
qed

lemma distinct_range_u32: "distinct (range_u32 n)"
proof -
  have "inj_on (of_nat :: nat \<Rightarrow> u32) (set [0..<unat n])"
  proof (rule inj_onI)
    fix k k' assume "k \<in> set [0..<unat n]" "k' \<in> set [0..<unat n]"
      and eq: "(of_nat k :: u32) = of_nat k'"
    then have lt: "k < unat n" "k' < unat n" by simp_all
    have "k = unat (of_nat k :: u32)" using unat_of_nat_below [OF lt(1)] by simp
    also have "\<dots> = unat (of_nat k' :: u32)" by (simp only: eq)
    also have "\<dots> = k'" using unat_of_nat_below [OF lt(2)] .
    finally show "k = k'" .
  qed
  then show ?thesis by (simp add: range_u32_def distinct_map)
qed


lemma for_each_opt_product_fun:
  "for_each_opt xs (\<lambda>i. for_each_opt ys (f i)) =
   for_each_opt (List.product xs ys) (\<lambda>(i, j). f i j)"
  by (rule ext) (rule for_each_opt_product)

lemma ConvImpl_flat:
  "ConvImpl Q a out0 =
     (if biasEnabled a \<and> biasData a = None then Some (Inl AssertionFailed)
      else for_each_opt (coords a)
             (store_at (\<lambda>(b, c, y, x). outputIndex a b c y x)
                       (\<lambda>(b, c, y, x). conv_element Q a b c y x)) out0)"
proof -
  have body: "(\<lambda>(b, c, y, x). store_element Q a b c y x) =
        store_at (\<lambda>(b, c, y, x). outputIndex a b c y x) (\<lambda>(b, c, y, x). conv_element Q a b c y x)"
    by (auto simp: store_at_def store_element_def fun_eq_iff)
  have 1: "\<And>b c. for_each_opt (range_u32 (heightOutput a)) (\<lambda>y.
             for_each_opt (range_u32 (widthOutput a)) (\<lambda>x. store_element Q a b c y x)) =
           for_each_opt (List.product (range_u32 (heightOutput a)) (range_u32 (widthOutput a)))
             (\<lambda>(y, x). store_element Q a b c y x)"
    by (rule for_each_opt_product_fun)
  have 2: "\<And>b. for_each_opt (range_u32 (channelsOutput a)) (\<lambda>c.
             for_each_opt (List.product (range_u32 (heightOutput a)) (range_u32 (widthOutput a)))
               (\<lambda>(y, x). store_element Q a b c y x)) =
           for_each_opt (List.product (range_u32 (channelsOutput a))
               (List.product (range_u32 (heightOutput a)) (range_u32 (widthOutput a))))
             (\<lambda>(c, y, x). store_element Q a b c y x)"
    by (rule for_each_opt_product_fun)
  have 3: "for_each_opt (range_u32 (batchSize a)) (\<lambda>b.
             for_each_opt (List.product (range_u32 (channelsOutput a))
               (List.product (range_u32 (heightOutput a)) (range_u32 (widthOutput a))))
               (\<lambda>(c, y, x). store_element Q a b c y x)) =
           for_each_opt (coords a) (\<lambda>(b, c, y, x). store_element Q a b c y x)"
    unfolding coords_def by (rule for_each_opt_product_fun)
  show ?thesis
    unfolding ConvImpl_def 1 2 3 body by simp
qed

lemma set_coords:
  "set (coords a) = {(b, c, y, x). b < batchSize a \<and> c < channelsOutput a \<and>
                                   y < heightOutput a \<and> x < widthOutput a}"
  by (auto simp: coords_def set_range_u32)

lemma distinct_coords: "distinct (coords a)"
  by (simp add: coords_def distinct_product distinct_range_u32)

lemma distinct_outputIndex:
  assumes "output_size a \<le> 2 ^ 32"
  shows "distinct (map (\<lambda>(b, c, y, x). outputIndex a b c y x) (coords a))"
proof -
  have "inj_on (\<lambda>(b, c, y, x). outputIndex a b c y x) (set (coords a))"
  proof (rule inj_onI)
    fix p p'
    assume p: "p \<in> set (coords a)" and p': "p' \<in> set (coords a)"
      and peq: "(case p of (b, c, y, x) \<Rightarrow> outputIndex a b c y x) =
                (case p' of (b, c, y, x) \<Rightarrow> outputIndex a b c y x)"
    obtain b c y x where P: "p = (b, c, y, x)" by (cases p) auto
    obtain b' c' y' x' where P': "p' = (b', c', y', x')" by (cases p') auto
    from p p' peq have in1: "(b, c, y, x) \<in> set (coords a)"
      and in2: "(b', c', y', x') \<in> set (coords a)"
      and eq: "outputIndex a b c y x = outputIndex a b' c' y' x'"
      by (simp_all add: P P')
    from in1 have r1: "b < batchSize a" "c < channelsOutput a" "y < heightOutput a" "x < widthOutput a"
      by (simp_all add: set_coords)
    from in2 have r2: "b' < batchSize a" "c' < channelsOutput a" "y' < heightOutput a" "x' < widthOutput a"
      by (simp_all add: set_coords)
    have fits: "unat (batchSize a) * unat (channelsOutput a) * unat (heightOutput a) * unat (widthOutput a) \<le> 2 ^ 32"
      using assms by (simp add: output_size_def)
    have "flat_index (unat (channelsOutput a)) (unat (heightOutput a)) (unat (widthOutput a))
            (unat b) (unat c) (unat y) (unat x) =
          flat_index (unat (channelsOutput a)) (unat (heightOutput a)) (unat (widthOutput a))
            (unat b') (unat c') (unat y') (unat x')"
      using eq unat_outputIndex [OF fits r1] unat_outputIndex [OF fits r2] by simp
    then have "unat b = unat b' \<and> unat c = unat c' \<and> unat y = unat y' \<and> unat x = unat x'"
      using r1 r2 by (intro flat_index_inj) (simp_all add: word_less_nat_alt)
    then show "p = p'" by (simp add: P P' word_unat_eq_iff)
  qed
  then show ?thesis using distinct_coords by (simp add: distinct_map)
qed

lemma ConvImpl_elements:
  assumes run: "ConvImpl Q a out0 = Some (Inr out)"
      and fits: "output_size a \<le> 2 ^ 32"
      and r: "b < batchSize a" "c < channelsOutput a" "y < heightOutput a" "x < widthOutput a"
  shows "conv_element Q a b c y x = Some (Inr (out ! unat (outputIndex a b c y x)))"
    and "unat (outputIndex a b c y x) < length out"
    and "length out = length out0"
proof -
  from run have loop: "for_each_opt (coords a)
             (store_at (\<lambda>(b, c, y, x). outputIndex a b c y x)
                       (\<lambda>(b, c, y, x). conv_element Q a b c y x)) out0 = Some (Inr out)"
    by (simp add: ConvImpl_flat split: if_splits)
  note res = stores_result [OF loop distinct_outputIndex [OF fits]]
  have mem: "(b, c, y, x) \<in> set (coords a)" using r by (simp add: set_coords)
  from res show len: "length out = length out0" by blast
  from res mem have "unat (outputIndex a b c y x) < length out0 \<and>
     conv_element Q a b c y x = Some (Inr (out ! unat (outputIndex a b c y x)))"
    by fastforce
  then show "conv_element Q a b c y x = Some (Inr (out ! unat (outputIndex a b c y x)))"
    and "unat (outputIndex a b c y x) < length out" using len by simp_all
qed

section \<open>One output element\<close>

lemma cInput_loop_window_sum:
  assumes "cOutput < channelsOutput a"
  shows "cInput_loop a batchIdx cOutput yOutput xOutput 0 0 =
         Some (window_sum a batchIdx cOutput yOutput xOutput)"
  using assms cInput_loop_depthwise [of a cOutput] cInput_loop_standard [of a]
  by (simp add: window_sum_def)

lemma accumulate_eq:
  assumes "cOutput < channelsOutput a"
  shows "accumulate a batchIdx cOutput yOutput xOutput =
         Some (bind (window_sum a batchIdx cOutput yOutput xOutput) (add_bias a cOutput))"
  by (simp add: accumulate_def cInput_loop_window_sum [OF assms])

lemma conv_element_eq:
  assumes "cOutput < channelsOutput a"
  shows "conv_element Q a batchIdx cOutput yOutput xOutput =
         Some (bind (bind (window_sum a batchIdx cOutput yOutput xOutput) (add_bias a cOutput))
                 (\<lambda>acc. bind (requantize Q a acc) numeric_cast_u8))"
  by (simp add: conv_element_def accumulate_eq [OF assms])

lemma for_each_opt_returns:
  assumes "\<And>k s. k \<in> set ks \<Longrightarrow> f k s \<noteq> None"
  shows "for_each_opt ks f s \<noteq> None"
  using assms
proof (induction ks arbitrary: s)
  case Nil
  then show ?case by simp
next
  case (Cons k ks)
  have head: "f k s \<noteq> None" by (rule Cons.prems) simp
  have tail: "\<And>s'. for_each_opt ks f s' \<noteq> None"
    by (rule Cons.IH) (simp add: Cons.prems)
  show ?case using head tail by (auto split: option.splits sum.splits)
qed

lemma ConvImpl_returns: "ConvImpl Q a out0 \<noteq> None"
proof -
  have "for_each_opt (coords a)
             (store_at (\<lambda>(b, c, y, x). outputIndex a b c y x)
                       (\<lambda>(b, c, y, x). conv_element Q a b c y x)) out0 \<noteq> None"
  proof (rule for_each_opt_returns)
    fix k s assume k: "k \<in> set (coords a)"
    obtain b c y x where K: "k = (b, c, y, x)" by (cases k) auto
    from k have "c < channelsOutput a" by (simp add: K set_coords)
    then show "store_at (\<lambda>(b, c, y, x). outputIndex a b c y x)
                       (\<lambda>(b, c, y, x). conv_element Q a b c y x) k s \<noteq> None"
      by (simp add: K store_at_def conv_element_eq)
  qed
  then show ?thesis by (simp add: ConvImpl_flat)
qed

lemma uint_u8_of_int: "0 \<le> v \<Longrightarrow> v \<le> 255 \<Longrightarrow> uint (word_of_int v :: u8) = v"
  by (simp add: uint_word_of_int)

lemma clamp_sint:
  "sint (i32_min (i32_max t 0) 255) = min (max (sint t) 0) 255"
  by (simp add: i32_min_def i32_max_def)

lemma sint_add_i32:
  assumes "in_i32 (sint x + sint y)"
  shows "sint (x + y :: i32) = sint x + sint y"
proof -
  have "x + y = word_of_int (sint x + sint y)" by simp
  then have "sint (x + y) = sint (word_of_int (sint x + sint y) :: i32)" by (rule arg_cong)
  also have "\<dots> = sint x + sint y"
    using assms by (intro sint_i32_of_int) (simp_all add: in_i32_def)
  finally show ?thesis .
qed

lemma i32_add_Inr:
  "i32_add x y = Inr t \<longleftrightarrow> in_i32 (sint x + sint y) \<and> t = x + y"
  by (auto simp: i32_add_def i32_of_def)

lemma requantize_quantized:
  assumes "outputScale a \<noteq> 0" "requantize Q a acc = Inr t"
  shows "\<exists>mul. Q ((inputScale a * filterScale a) / outputScale a) = Inr mul \<and>
               in_i32 (sint (mul acc) + sint (outputOffset a)) \<and>
               sint t = min (max (sint (mul acc) + sint (outputOffset a)) 0) 255"
  using assms
  by (auto simp: requantize_def bind_eq_Inr i32_add_Inr clamp_sint sint_add_i32)

lemma numeric_cast_u8_Inr:
  "numeric_cast_u8 t = Inr v \<longleftrightarrow> 0 \<le> sint t \<and> sint t \<le> 255 \<and> v = word_of_int (sint t)"
  by (auto simp: numeric_cast_u8_def)

lemma numeric_cast_u8_uint:
  assumes "numeric_cast_u8 t = Inr v"
  shows "uint v = sint t" and "0 \<le> sint t" and "sint t \<le> 255"
proof -
  from assms show r: "0 \<le> sint t" "sint t \<le> 255"
    by (simp_all add: numeric_cast_u8_Inr)
  from assms have "v = word_of_int (sint t)"
    by (simp add: numeric_cast_u8_Inr)
  then have "uint v = uint (word_of_int (sint t) :: u8)" by (rule arg_cong)
  also have "\<dots> = sint t" by (rule uint_u8_of_int [OF r])
  finally show "uint v = sint t" .
qed

section \<open>The channel mapping\<close>

text \<open>
  C3. For an output channel of the kernel's loop (\<open>cOutput < channelsOutput\<close>), the loop
  over the input channels returns, and what it returns is: in depthwise mode the window
  sum of the single input channel \<open>cOutput div depthMult\<close> with multiplier index
  \<open>cOutput mod depthMult\<close>; in standard mode the window sums of all the input channels
  \<open>0 .. channelsInput - 1\<close> in turn. The filter element of a window position is read at
  \<open>multiplierIdx * kW * kH * Cin + inChannel * kW * kH + filterRow * kW + filterCol\<close> in
  depthwise mode and at \<open>outChannel * kW * kH * Cin + inChannel * kW * kH + filterRow * kW +
  filterCol\<close> in standard mode (in \<^verbatim>\<open>unsigned int\<close> arithmetic).
\<close>

theorem channel_mapping:
  assumes "cOutput < channelsOutput a"
  shows "cInput_loop a batchIdx cOutput yOutput xOutput 0 acc =
           Some (if depthwise a
                 then window_loops a batchIdx cOutput yOutput xOutput
                        (cOutput div depthMult a) (cOutput mod depthMult a) acc
                 else for_each (range_u32 (channelsInput a))
                        (\<lambda>cInput. window_loops a batchIdx cOutput yOutput xOutput cInput 0) acc)
         \<and>
         window_step a batchIdx cOutput yOutput xOutput cInput multiplierIdx yFilter xFilter acc =
           bind (filterValue_at a
                  ((if depthwise a then multiplierIdx else cOutput)
                      * widthFilter a * heightFilter a * channelsInput a +
                    cInput * widthFilter a * heightFilter a + yFilter * widthFilter a + xFilter))
             (\<lambda>filterValue.
                bind (inputValue_at a batchIdx cInput
                        (yOutput * hStride a + yFilter) (xOutput * xStride a + xFilter))
                  (\<lambda>inputValue. bind (i32_mul filterValue inputValue) (i32_add acc)))"
proof
  show "cInput_loop a batchIdx cOutput yOutput xOutput 0 acc =
           Some (if depthwise a
                 then window_loops a batchIdx cOutput yOutput xOutput
                        (cOutput div depthMult a) (cOutput mod depthMult a) acc
                 else for_each (range_u32 (channelsInput a))
                        (\<lambda>cInput. window_loops a batchIdx cOutput yOutput xOutput cInput 0) acc)"
    using assms cInput_loop_depthwise [of a cOutput] cInput_loop_standard [of a] by simp
  show "window_step a batchIdx cOutput yOutput xOutput cInput multiplierIdx yFilter xFilter acc =
           bind (filterValue_at a
                  ((if depthwise a then multiplierIdx else cOutput)
                      * widthFilter a * heightFilter a * channelsInput a +
                    cInput * widthFilter a * heightFilter a + yFilter * widthFilter a + xFilter))
             (\<lambda>filterValue.
                bind (inputValue_at a batchIdx cInput
                        (yOutput * hStride a + yFilter) (xOutput * xStride a + xFilter))
                  (\<lambda>inputValue. bind (i32_mul filterValue inputValue) (i32_add acc)))"
    by (simp add: window_step_def filterIndex_def)
qed

theorem channel_mapping_witness:
  "(3 :: u32) < channelsOutput depthwise_args \<and> depthwise depthwise_args \<and>
   3 div depthMult depthwise_args = 1 \<and> 3 mod depthMult depthwise_args = 1 \<and>
   cInput_loop depthwise_args 0 3 1 1 0 0 =
     Some (window_loops depthwise_args 0 3 1 1 1 1 0) \<and>
   window_loops depthwise_args 0 3 1 1 1 1 0 = Inr 20 \<and>
   (0 :: u32) < channelsOutput identity_args \<and> \<not> depthwise identity_args \<and>
   cInput_loop identity_args 0 0 1 1 0 0 =
     Some (for_each (range_u32 (channelsInput identity_args))
             (\<lambda>cInput. window_loops identity_args 0 0 1 1 cInput 0) 0)"
proof -
  have d: "(3 :: u32) < channelsOutput depthwise_args"
    by (simp add: channelsOutput_def channelsInput_def depthMult_def depthwise_args_def shape_def)
  have s: "(0 :: u32) < channelsOutput identity_args"
    by (simp add: channelsOutput_def identity_args_def shape_def)
  have dm: "depthMult depthwise_args = 2"
    by (simp add: depthMult_def depthwise_args_def shape_def)
  have w: "window_loops depthwise_args 0 3 1 1 1 1 0 = Inr 20"
    by code_simp
  show ?thesis
    using channel_mapping [OF d, of 0 1 1 0] channel_mapping [OF s, of 0 1 1 0] d s w
    by (simp add: dm) (simp add: depthwise_args_def identity_args_def)
qed

section \<open>The identity filter\<close>

text \<open>
  C6. The 1 by 1 filter of value 1, with stride 1, no padding, no bias and
  \<^verbatim>\<open>outputScale == 0\<close>, reproduces the input \<open>[[1, 2], [3, 4]]\<close>, whatever the output buffer
  held before and whatever the multiplier is; the element of row \<open>y\<close> and column \<open>x\<close> is
  stored at \<open>batch * Wout * Hout * Cout + outChannel * Wout * Hout + y * Wout + x\<close>, here
  \<open>2 * y + x\<close>.
\<close>

theorem identity_filter_reproduces_input:
  "ConvImpl Q identity_args [p, q, r, s] = Some (Inr [1, 2, 3, 4]) \<and>
   ConvImpl Q identity_args [p, q, r, s] = Some (Inr (inputData identity_args)) \<and>
   outputIndex a batchIdx cOutput yOutput xOutput =
     batchIdx * widthOutput a * heightOutput a * channelsOutput a +
     cOutput * widthOutput a * heightOutput a + yOutput * widthOutput a + xOutput \<and>
   map (\<lambda>(y, x). outputIndex identity_args 0 0 y x) [(0, 0), (0, 1), (1, 0), (1, 1)] =
     [0, 1, 2, 3]"
proof -
  have run: "ConvImpl Q identity_args [p, q, r, s] = Some (Inr [1, 2, 3, 4])"
    by code_simp
  then have same: "ConvImpl Q identity_args [p, q, r, s] = Some (Inr (inputData identity_args))"
    by (simp add: identity_args_def)
  have idx: "outputIndex a batchIdx cOutput yOutput xOutput =
     batchIdx * widthOutput a * heightOutput a * channelsOutput a +
     cOutput * widthOutput a * heightOutput a + yOutput * widthOutput a + xOutput"
    by (simp add: outputIndex_def mult.commute)
  have at: "map (\<lambda>(y, x). outputIndex identity_args 0 0 y x) [(0, 0), (0, 1), (1, 0), (1, 1)] =
     [0, 1, 2, 3]"
    by code_simp
  show ?thesis using run same idx at by blast
qed

section \<open>The saturating doubling high multiplication\<close>

lemma abs_sint_le: "\<bar>sint (x :: i32)\<bar> \<le> 2 ^ 31"
  using sint_ge [of x] sint_lt [of x] by simp

lemma abs_sint_eq: "\<bar>sint (x :: i32)\<bar> = 2 ^ 31 \<longleftrightarrow> sint x = - (2 ^ 31)"
  using sint_ge [of x] sint_lt [of x] by auto

lemma product_bound:
  assumes "\<not> (sint (a :: i32) = - (2 ^ 31) \<and> sint (b :: i32) = - (2 ^ 31))"
  shows "\<bar>sint a * sint b\<bar> \<le> 2 ^ 62 - 2 ^ 31"
proof -
  have "\<bar>sint a\<bar> \<le> 2 ^ 31 - 1 \<or> \<bar>sint b\<bar> \<le> 2 ^ 31 - 1"
    using assms abs_sint_le [of a] abs_sint_le [of b] abs_sint_eq [of a] abs_sint_eq [of b]
    by linarith
  then show ?thesis
  proof
    assume "\<bar>sint a\<bar> \<le> 2 ^ 31 - 1"
    then have "\<bar>sint a\<bar> * \<bar>sint b\<bar> \<le> (2 ^ 31 - 1) * 2 ^ 31"
      using abs_sint_le [of b] by (intro mult_mono) simp_all
    then show ?thesis by (simp add: abs_mult)
  next
    assume "\<bar>sint b\<bar> \<le> 2 ^ 31 - 1"
    then have "\<bar>sint a\<bar> * \<bar>sint b\<bar> \<le> 2 ^ 31 * (2 ^ 31 - 1)"
      using abs_sint_le [of a] by (intro mult_mono) simp_all
    then show ?thesis by (simp add: abs_mult)
  qed
qed

lemma doubling_high_in_range:
  assumes "\<not> (sint (a :: i32) = - (2 ^ 31) \<and> sint (b :: i32) = - (2 ^ 31))"
  shows "- (2 ^ 31) \<le> (2 * (sint a * sint b) + 2 ^ 31) div (2 ^ 32 :: int)"
    and "(2 * (sint a * sint b) + 2 ^ 31) div (2 ^ 32 :: int) < 2 ^ 31"
  using product_bound [OF assms] by simp_all

text \<open>
  C7. \<^verbatim>\<open>SaturatingRoundingDoublingHighMul\<close> is commutative; at the pair of two most negative
  values it returns the largest \<^verbatim>\<open>int32_t\<close>, \<open>2147483647\<close>; at every other pair its value is
  the doubled product with half of \<open>2 ^ 32\<close> added, divided by \<open>2 ^ 32\<close> (the rounded high
  32 bits), which then fits 32 bits, while at the saturating pair that quotient is
  \<open>2 ^ 31\<close> and does not.
\<close>

theorem SaturatingRoundingDoublingHighMul_properties:
  "SaturatingRoundingDoublingHighMul a b = SaturatingRoundingDoublingHighMul b a \<and>
   sint (SaturatingRoundingDoublingHighMul (word_of_int (- (2 ^ 31))) (word_of_int (- (2 ^ 31))))
     = 2147483647 \<and>
   (\<not> (sint a = - (2 ^ 31) \<and> sint b = - (2 ^ 31)) \<longrightarrow>
     sint (SaturatingRoundingDoublingHighMul a b) = (2 * (sint a * sint b) + 2 ^ 31) div 2 ^ 32) \<and>
   (in_i32 ((2 * (sint a * sint b) + 2 ^ 31) div 2 ^ 32) \<longleftrightarrow>
     \<not> (sint a = - (2 ^ 31) \<and> sint b = - (2 ^ 31)))"
proof -
  have comm: "SaturatingRoundingDoublingHighMul a b = SaturatingRoundingDoublingHighMul b a"
    by (simp add: SaturatingRoundingDoublingHighMul_def mult.commute conj_commute)
  have sat:
    "sint (SaturatingRoundingDoublingHighMul (word_of_int (- (2 ^ 31))) (word_of_int (- (2 ^ 31))))
     = 2147483647"
    by (simp add: SaturatingRoundingDoublingHighMul_def)
  have val: "sint (SaturatingRoundingDoublingHighMul a b) = (2 * (sint a * sint b) + 2 ^ 31) div 2 ^ 32"
    if "\<not> (sint a = - (2 ^ 31) \<and> sint b = - (2 ^ 31))"
    using that doubling_high_in_range [OF that]
    by (simp add: SaturatingRoundingDoublingHighMul_def sint_i32_of_int)
  have fits: "in_i32 ((2 * (sint a * sint b) + 2 ^ 31) div 2 ^ 32) \<longleftrightarrow>
     \<not> (sint a = - (2 ^ 31) \<and> sint b = - (2 ^ 31))"
  proof (cases "sint a = - (2 ^ 31) \<and> sint b = - (2 ^ 31)")
    case True
    then show ?thesis by (simp add: in_i32_def)
  next
    case False
    then show ?thesis using doubling_high_in_range [OF False] by (simp add: in_i32_def)
  qed
  show ?thesis using comm sat val fits by blast
qed

theorem SaturatingRoundingDoublingHighMul_witness:
  "\<not> (sint (1073741824 :: i32) = - (2 ^ 31) \<and> sint (-3 :: i32) = - (2 ^ 31)) \<and>
   sint (SaturatingRoundingDoublingHighMul 1073741824 (-3)) = -1"
proof -
  have h: "\<not> (sint (1073741824 :: i32) = - (2 ^ 31) \<and> sint (-3 :: i32) = - (2 ^ 31))"
    by simp
  from h SaturatingRoundingDoublingHighMul_properties [of 1073741824 "-3"]
  have "sint (SaturatingRoundingDoublingHighMul 1073741824 (-3)) =
        (2 * (sint (1073741824 :: i32) * sint (-3 :: i32)) + 2 ^ 31) div 2 ^ 32"
    by blast
  then show ?thesis using h by simp
qed

section \<open>Requantization\<close>

lemma requantize_overflow:
  assumes "outputScale a \<noteq> 0"
      and "Q (inputScale a * filterScale a / outputScale a) = Inr mul"
      and "\<not> in_i32 (sint (mul acc) + sint (outputOffset a))"
  shows "requantize Q a acc = Inl SignedOverflow"
  using assms by (simp add: requantize_def i32_add_def i32_of_def)

text \<open>
  C2. On the quantized path the stored value is meant to be the rescaled accumulator plus
  \<^verbatim>\<open>outputOffset\<close>, clamped into \<open>[0, 255]\<close>, however large the accumulator. The source adds
  \<^verbatim>\<open>outputOffset\<close> in \<^verbatim>\<open>int32_t\<close> before it clamps (lines 168 to 171), and at the \<^verbatim>\<open>int32_t\<close>
  boundary that addition overflows. For the accumulator 2147483647, the ratio \<open>1 - 2^-24\<close>
  and the offset 255: the rescaled value is 2147483519, its sum with the offset is not an
  \<^verbatim>\<open>int32_t\<close> value although its clamp is 255, the addition is undefined and ends the run
  of the kernel, and the addition with two's complement wrap-around followed by the clamp
  of the source gives 0.
\<close>

theorem offset_addition_overflows:
  "outputScale boundary_args \<noteq> 0 \<and>
   inputScale boundary_args * filterScale boundary_args / outputScale boundary_args = 1 - 1 / 2 ^ 24 \<and>
   accumulate boundary_args 0 0 0 0 = Some (Inr 2147483647) \<and>
   sint (SaturatingRoundingDoublingHighMul 2147483520 2147483647) = 2147483519 \<and>
   \<not> in_i32 (2147483519 + sint (outputOffset boundary_args)) \<and>
   min (max (2147483519 + sint (outputOffset boundary_args)) 0) 255 = 255 \<and>
   requantize near_one_multiplier boundary_args 2147483647 = Inl SignedOverflow \<and>
   conv_element near_one_multiplier boundary_args 0 0 0 0 = Some (Inl SignedOverflow) \<and>
   ConvImpl near_one_multiplier boundary_args [7] = Some (Inl SignedOverflow) \<and>
   i32_min (i32_max (SaturatingRoundingDoublingHighMul 2147483520 2147483647 +
                     outputOffset boundary_args) 0) 255 = 0"
proof -
  have nz: "outputScale boundary_args \<noteq> 0" by (simp add: boundary_args_def)
  have m: "inputScale boundary_args * filterScale boundary_args / outputScale boundary_args
           = 1 - 1 / 2 ^ 24"
    by (simp add: boundary_args_def)
  have acc: "accumulate boundary_args 0 0 0 0 = Some (Inr 2147483647)" by code_simp
  have r: "sint (SaturatingRoundingDoublingHighMul 2147483520 2147483647) = 2147483519"
    by code_simp
  have off: "sint (outputOffset boundary_args) = 255" by (simp add: boundary_args_def)
  have over: "\<not> in_i32 (2147483519 + sint (outputOffset boundary_args))"
    by (simp add: off in_i32_def)
  have ideal: "min (max (2147483519 + sint (outputOffset boundary_args)) 0) 255 = (255 :: int)"
    by (simp add: off)
  have Q: "near_one_multiplier
             (inputScale boundary_args * filterScale boundary_args / outputScale boundary_args)
           = Inr (SaturatingRoundingDoublingHighMul 2147483520)"
    by (simp add: near_one_multiplier_def)
  have rq: "requantize near_one_multiplier boundary_args 2147483647 = Inl SignedOverflow"
    using requantize_overflow [where Q = near_one_multiplier and a = boundary_args
        and mul = "SaturatingRoundingDoublingHighMul 2147483520" and acc = 2147483647]
      nz Q r over
    by simp
  have el: "conv_element near_one_multiplier boundary_args 0 0 0 0 = Some (Inl SignedOverflow)"
    by (simp add: conv_element_def acc rq)
  have run: "ConvImpl near_one_multiplier boundary_args [7] = Some (Inl SignedOverflow)"
    by code_simp
  have wrap: "i32_min (i32_max (SaturatingRoundingDoublingHighMul 2147483520 2147483647 +
                     outputOffset boundary_args) 0) 255 = 0"
    by code_simp
  show ?thesis using nz m acc r over ideal rq el run wrap by blast
qed

text \<open>
  Where the addition of the offset is defined, the narrowing succeeds with the clamp of the
  sum, and every element of a buffer that the kernel returns is that clamp of its
  accumulator.
\<close>

lemma quantized_output_clamped:
  assumes "outputScale a \<noteq> 0"
  shows "(\<forall>acc mul. Q (inputScale a * filterScale a / outputScale a) = Inr mul \<longrightarrow>
            in_i32 (sint (mul acc) + sint (outputOffset a)) \<longrightarrow>
            (\<exists>v. bind (requantize Q a acc) numeric_cast_u8 = Inr v \<and>
                 uint v = min (max (sint (mul acc) + sint (outputOffset a)) 0) 255))
         \<and>
         (ConvImpl Q a out0 = Some (Inr out) \<longrightarrow> output_size a \<le> 2 ^ 32 \<longrightarrow>
          b < batchSize a \<longrightarrow> c < channelsOutput a \<longrightarrow> y < heightOutput a \<longrightarrow> x < widthOutput a \<longrightarrow>
            (\<exists>acc mul. accumulate a b c y x = Some (Inr acc) \<and>
               Q (inputScale a * filterScale a / outputScale a) = Inr mul \<and>
               uint (out ! unat (outputIndex a b c y x)) =
                 min (max (sint (mul acc) + sint (outputOffset a)) 0) 255))"
proof (intro conjI allI impI)
  fix acc mul
  assume Q: "Q (inputScale a * filterScale a / outputScale a) = Inr mul"
    and fit: "in_i32 (sint (mul acc) + sint (outputOffset a))"
  let ?t = "i32_min (i32_max (mul acc + outputOffset a) 0) 255"
  have r: "requantize Q a acc = Inr ?t"
    using assms Q fit by (simp add: requantize_def i32_add_def i32_of_def)
  have st: "sint ?t = min (max (sint (mul acc) + sint (outputOffset a)) 0) 255"
    using fit by (simp add: clamp_sint sint_add_i32)
  then obtain v where v: "numeric_cast_u8 ?t = Inr v"
    by (simp add: numeric_cast_u8_Inr)
  have "uint v = sint ?t" by (rule numeric_cast_u8_uint(1) [OF v])
  then show "\<exists>v. bind (requantize Q a acc) numeric_cast_u8 = Inr v \<and>
                 uint v = min (max (sint (mul acc) + sint (outputOffset a)) 0) 255"
    using r st v by simp
next
  assume run: "ConvImpl Q a out0 = Some (Inr out)" and fits: "output_size a \<le> 2 ^ 32"
    and r: "b < batchSize a" "c < channelsOutput a" "y < heightOutput a" "x < widthOutput a"
  let ?v = "out ! unat (outputIndex a b c y x)"
  from ConvImpl_elements(1) [OF run fits r]
  obtain acc t where acc: "accumulate a b c y x = Some (Inr acc)"
    and t: "requantize Q a acc = Inr t" and v: "numeric_cast_u8 t = Inr ?v"
    by (auto simp: conv_element_def bind_eq_Inr)
  from requantize_quantized [OF assms t] obtain mul
    where Q: "Q (inputScale a * filterScale a / outputScale a) = Inr mul"
      and st: "sint t = min (max (sint (mul acc) + sint (outputOffset a)) 0) 255"
    by blast
  have "uint ?v = sint t" by (rule numeric_cast_u8_uint(1) [OF v])
  then show "\<exists>acc mul. accumulate a b c y x = Some (Inr acc) \<and>
               Q (inputScale a * filterScale a / outputScale a) = Inr mul \<and>
               uint (out ! unat (outputIndex a b c y x)) =
                 min (max (sint (mul acc) + sint (outputOffset a)) 0) 255"
    using acc Q st by auto
qed


lemma quantized_output_clamped_example:
  "outputScale quantized_args \<noteq> 0 \<and>
   unit_multiplier (inputScale quantized_args * filterScale quantized_args / outputScale quantized_args)
     = Inr (\<lambda>x. x) \<and>
   in_i32 (sint (2147483000 :: i32) + sint (outputOffset quantized_args)) \<and>
   (\<exists>v. bind (requantize unit_multiplier quantized_args 2147483000) numeric_cast_u8 = Inr v \<and>
        uint v = 255) \<and>
   ConvImpl unit_multiplier quantized_args [0, 0, 0, 0] = Some (Inr [255, 255, 15, 0]) \<and>
   output_size quantized_args \<le> 2 ^ 32 \<and>
   (0 :: u32) < batchSize quantized_args \<and> (0 :: u32) < channelsOutput quantized_args \<and>
   (1 :: u32) < heightOutput quantized_args \<and> (0 :: u32) < widthOutput quantized_args \<and>
   accumulate quantized_args 0 0 1 0 = Some (Inr (- 5)) \<and>
   unat (outputIndex quantized_args 0 0 1 0) = 2 \<and>
   (\<exists>acc mul. accumulate quantized_args 0 0 1 0 = Some (Inr acc) \<and>
      unit_multiplier
        (inputScale quantized_args * filterScale quantized_args / outputScale quantized_args)
        = Inr mul \<and>
      15 = min (max (sint (mul acc) + sint (outputOffset quantized_args)) 0) 255)"
proof -
  have nz: "outputScale quantized_args \<noteq> 0" by (simp add: quantized_args_def)
  have Q: "unit_multiplier
             (inputScale quantized_args * filterScale quantized_args / outputScale quantized_args)
           = Inr (\<lambda>x. x)"
    by (simp add: unit_multiplier_def)
  have fit: "in_i32 (sint (2147483000 :: i32) + sint (outputOffset quantized_args))"
    by (simp add: in_i32_def quantized_args_def)
  have run: "ConvImpl unit_multiplier quantized_args [0, 0, 0, 0] = Some (Inr [255, 255, 15, 0])"
    by code_simp
  have size: "output_size quantized_args \<le> 2 ^ 32"
    by (simp add: output_size_def batchSize_def channelsOutput_def heightOutput_def
          widthOutput_def quantized_args_def shape_def)
  have r: "(0 :: u32) < batchSize quantized_args" "(0 :: u32) < channelsOutput quantized_args"
    "(1 :: u32) < heightOutput quantized_args" "(0 :: u32) < widthOutput quantized_args"
    by (simp_all add: batchSize_def channelsOutput_def heightOutput_def
          widthOutput_def quantized_args_def shape_def)
  have acc: "accumulate quantized_args 0 0 1 0 = Some (Inr (- 5))"
    by code_simp
  have at: "unat (outputIndex quantized_args 0 0 1 0) = 2"
    by code_simp
  note t = quantized_output_clamped [OF nz, of unit_multiplier "[0, 0, 0, 0]" "[255, 255, 15, 0]"
              0 0 1 0]
  from t Q fit have "\<exists>v. bind (requantize unit_multiplier quantized_args 2147483000) numeric_cast_u8
                        = Inr v \<and>
        uint v = min (max (sint (2147483000 :: i32) + sint (outputOffset quantized_args)) 0) 255"
    by blast
  then have big: "\<exists>v. bind (requantize unit_multiplier quantized_args 2147483000) numeric_cast_u8
                        = Inr v \<and> uint v = 255"
    by (simp add: quantized_args_def)
  from t run size r have "\<exists>acc mul. accumulate quantized_args 0 0 1 0 = Some (Inr acc) \<and>
      unit_multiplier
        (inputScale quantized_args * filterScale quantized_args / outputScale quantized_args)
        = Inr mul \<and>
      uint ([255, 255, 15, 0 :: u8] ! unat (outputIndex quantized_args 0 0 1 0)) =
        min (max (sint (mul acc) + sint (outputOffset quantized_args)) 0) 255"
    by blast
  then have el: "\<exists>acc mul. accumulate quantized_args 0 0 1 0 = Some (Inr acc) \<and>
      unit_multiplier
        (inputScale quantized_args * filterScale quantized_args / outputScale quantized_args)
        = Inr mul \<and>
      15 = min (max (sint (mul acc) + sint (outputOffset quantized_args)) 0) 255"
    by (simp add: at)
  show ?thesis using nz Q fit big run size r acc at el by blast
qed

lemma for_each_opt_cong_body:
  assumes "\<And>k s. k \<in> set ks \<Longrightarrow> f k s = g k s"
  shows "for_each_opt ks f s = for_each_opt ks g s"
  using assms
proof (induction ks arbitrary: s)
  case Nil
  then show ?case by simp
next
  case (Cons k ks)
  have "f k s = g k s" by (rule Cons.prems) simp
  moreover have "\<And>t. for_each_opt ks f t = for_each_opt ks g t"
    by (rule Cons.IH) (simp add: Cons.prems)
  ultimately show ?case by (simp split: option.splits sum.splits)
qed

lemmas locals_defs = depthMult_def channelsInput_def channelsOutput_def batchSize_def
  heightOutput_def widthOutput_def heightInput_def widthInput_def heightFilter_def
  widthFilter_def paddingTop_def paddingLeft_def hStride_def xStride_def biasEnabled_def

lemma passthrough_ignores_quantization:
  assumes "outputScale a = 0"
  shows "ConvImpl Q a out0 =
         ConvImpl Q' (a\<lparr>inputScale := s, filterScale := s', outputOffset := off\<rparr>) out0"
proof -
  let ?a = "a\<lparr>inputScale := s, filterScale := s', outputOffset := off\<rparr>"
  have z: "outputScale ?a = 0" using assms by simp
  have st: "window_step ?a = window_step a"
    by (simp add: fun_eq_iff window_step_def filterValue_at_def
          inputValue_at_def filterIndex_def inputIndex_def in_padding_def locals_defs)
  have wl: "window_loops ?a = window_loops a"
    by (simp add: fun_eq_iff window_loops_def st locals_defs)
  have ws: "\<And>b c y x. window_sum ?a b c y x = window_sum a b c y x"
    by (simp add: window_sum_def wl locals_defs)
  have ab: "\<And>c. add_bias ?a c = add_bias a c"
    by (simp add: add_bias_def read_bias_def locals_defs fun_eq_iff)
  have rq: "\<And>acc. requantize Q' ?a acc = requantize Q a acc"
    using assms by (simp add: requantize_def)
  have co: "coords ?a = coords a" by (simp add: coords_def locals_defs)
  have ix: "\<And>b c y x. outputIndex ?a b c y x = outputIndex a b c y x"
    by (simp add: outputIndex_def locals_defs)
  have as: "(biasEnabled ?a \<and> biasData ?a = None) = (biasEnabled a \<and> biasData a = None)"
    by (simp add: locals_defs)
  have "for_each_opt (coords a)
             (store_at (\<lambda>(b, c, y, x). outputIndex a b c y x)
                       (\<lambda>(b, c, y, x). conv_element Q a b c y x)) out0 =
        for_each_opt (coords a)
             (store_at (\<lambda>(b, c, y, x). outputIndex ?a b c y x)
                       (\<lambda>(b, c, y, x). conv_element Q' ?a b c y x)) out0"
  proof (rule for_each_opt_cong_body)
    fix k s assume k: "k \<in> set (coords a)"
    obtain b c y x where K: "k = (b, c, y, x)" by (cases k) auto
    from k have c: "c < channelsOutput a" by (simp add: K set_coords)
    have "channelsOutput ?a = channelsOutput a" by (simp add: locals_defs)
    then have c': "c < channelsOutput ?a" using c by simp
    show "store_at (\<lambda>(b, c, y, x). outputIndex a b c y x)
                       (\<lambda>(b, c, y, x). conv_element Q a b c y x) k s =
          store_at (\<lambda>(b, c, y, x). outputIndex ?a b c y x)
                       (\<lambda>(b, c, y, x). conv_element Q' ?a b c y x) k s"
      unfolding K store_at_def
      by (simp only: prod.case conv_element_eq [OF c] conv_element_eq [OF c'] ws ab rq ix)
  qed
  then show ?thesis
    unfolding ConvImpl_flat [of Q a] ConvImpl_flat [of Q' ?a] co as by simp
qed

text \<open>
  C5. With \<^verbatim>\<open>outputScale == 0\<close> the requantization step leaves the accumulator as it is:
  the value of an output element is the accumulator (window sum plus bias) narrowed to
  the output element type, with no use of the multiplier, no addition of \<^verbatim>\<open>outputOffset\<close>
  and no clamping. The result of the kernel is the same under any other multiplier, input
  scale, filter scale and output offset, and in the buffer that the kernel returns every
  element is its accumulator.
\<close>

theorem passthrough_narrows_accumulator:
  assumes "outputScale a = 0"
  shows "requantize Q a acc = Inr acc \<and>
         conv_element Q a b c y x =
           map_option (\<lambda>r. bind r numeric_cast_u8) (accumulate a b c y x) \<and>
         ConvImpl Q a out0 =
           ConvImpl Q' (a\<lparr>inputScale := s, filterScale := s', outputOffset := off\<rparr>) out0 \<and>
         (ConvImpl Q a out0 = Some (Inr out) \<longrightarrow> output_size a \<le> 2 ^ 32 \<longrightarrow>
          b < batchSize a \<longrightarrow> c < channelsOutput a \<longrightarrow> y < heightOutput a \<longrightarrow> x < widthOutput a \<longrightarrow>
            (\<exists>acc. accumulate a b c y x = Some (Inr acc) \<and>
                   uint (out ! unat (outputIndex a b c y x)) = sint acc))"
proof (intro conjI impI)
  show rq: "requantize Q a acc = Inr acc" using assms by (simp add: requantize_def)
  have "\<And>acc. requantize Q a acc = Inr acc" using assms by (simp add: requantize_def)
  then show el: "conv_element Q a b c y x =
           map_option (\<lambda>r. bind r numeric_cast_u8) (accumulate a b c y x)"
    by (simp add: conv_element_def)
  show "ConvImpl Q a out0 =
          ConvImpl Q' (a\<lparr>inputScale := s, filterScale := s', outputOffset := off\<rparr>) out0"
    by (rule passthrough_ignores_quantization [OF assms])
  assume run: "ConvImpl Q a out0 = Some (Inr out)" and fits: "output_size a \<le> 2 ^ 32"
    and r: "b < batchSize a" "c < channelsOutput a" "y < heightOutput a" "x < widthOutput a"
  let ?v = "out ! unat (outputIndex a b c y x)"
  from ConvImpl_elements(1) [OF run fits r] el
  obtain acc where acc: "accumulate a b c y x = Some (Inr acc)"
    and v: "numeric_cast_u8 acc = Inr ?v"
    by (auto simp: bind_eq_Inr)
  have "uint ?v = sint acc" by (rule numeric_cast_u8_uint(1) [OF v])
  then show "\<exists>acc. accumulate a b c y x = Some (Inr acc) \<and>
                   uint (out ! unat (outputIndex a b c y x)) = sint acc"
    using acc by blast
qed

theorem passthrough_narrows_accumulator_witness:
  "outputScale depthwise_args = 0 \<and>
   requantize unit_multiplier depthwise_args 77 = Inr 77 \<and>
   ConvImpl unit_multiplier depthwise_args (replicate 36 0) =
     Some (Inr [10, 10, 10, 10, 11, 12, 10, 13, 14,
                20, 20, 20, 20, 23, 26, 20, 29, 32,
                30, 30, 30, 30, 40, 42, 30, 44, 46,
                40, 40, 40, 40, 60, 64, 40, 68, 72]) \<and>
   output_size depthwise_args \<le> 2 ^ 32 \<and>
   (0 :: u32) < batchSize depthwise_args \<and> (3 :: u32) < channelsOutput depthwise_args \<and>
   (2 :: u32) < heightOutput depthwise_args \<and> (1 :: u32) < widthOutput depthwise_args \<and>
   unat (outputIndex depthwise_args 0 3 2 1) = 34 \<and>
   (\<exists>acc. accumulate depthwise_args 0 3 2 1 = Some (Inr acc) \<and> 68 = sint acc)"
proof -
  let ?out = "[10, 10, 10, 10, 11, 12, 10, 13, 14,
                20, 20, 20, 20, 23, 26, 20, 29, 32,
                30, 30, 30, 30, 40, 42, 30, 44, 46,
                40, 40, 40, 40, 60, 64, 40, 68, 72 :: u8]"
  have z: "outputScale depthwise_args = 0" by (simp add: depthwise_args_def)
  have run: "ConvImpl unit_multiplier depthwise_args (replicate 36 0) = Some (Inr ?out)"
    by code_simp
  have size: "output_size depthwise_args \<le> 2 ^ 32"
    by (simp add: output_size_def batchSize_def channelsOutput_def channelsInput_def depthMult_def
          heightOutput_def widthOutput_def depthwise_args_def shape_def)
  have r: "(0 :: u32) < batchSize depthwise_args" "(3 :: u32) < channelsOutput depthwise_args"
    "(2 :: u32) < heightOutput depthwise_args" "(1 :: u32) < widthOutput depthwise_args"
    by (simp_all add: batchSize_def channelsOutput_def channelsInput_def depthMult_def
          heightOutput_def widthOutput_def depthwise_args_def shape_def)
  have at: "unat (outputIndex depthwise_args 0 3 2 1) = 34"
    by code_simp
  note t = passthrough_narrows_accumulator [OF z, where Q = unit_multiplier and acc = 77
             and b = 0 and c = 3 and y = 2 and x = 1 and ?out0.0 = "replicate 36 0"
             and out = ?out]
  from t have rq: "requantize unit_multiplier depthwise_args 77 = Inr 77" by blast
  from t run size r have "\<exists>acc. accumulate depthwise_args 0 3 2 1 = Some (Inr acc) \<and>
                   uint (?out ! unat (outputIndex depthwise_args 0 3 2 1)) = sint acc"
    by blast
  then have el: "\<exists>acc. accumulate depthwise_args 0 3 2 1 = Some (Inr acc) \<and> 68 = sint acc"
    by (simp add: at)
  show ?thesis using z rq run size r at el by blast
qed

text \<open>
  C10. The last conversion does not wrap. On the quantized path the value handed to it is
  within \<open>[0, 255]\<close>, so the conversion succeeds and keeps the value. On the passthrough
  path it is range-checked: an accumulator below 0 or above 255 ends the element with the
  exception of \<^verbatim>\<open>boost::numeric_cast\<close>, and the kernel then ends with an error instead of
  returning a buffer; an accumulator within range is stored unchanged.
\<close>

theorem narrowing_never_wraps:
  "(outputScale a \<noteq> 0 \<longrightarrow> requantize Q a acc = Inr t \<longrightarrow>
      0 \<le> sint t \<and> sint t \<le> 255 \<and> (\<exists>v. numeric_cast_u8 t = Inr v \<and> uint v = sint t)) \<and>
   (outputScale a = 0 \<longrightarrow> accumulate a b c y x = Some (Inr acc) \<longrightarrow>
      conv_element Q a b c y x =
        Some (if sint acc < 0 then Inl NegativeOverflow
              else if 255 < sint acc then Inl PositiveOverflow
              else Inr (word_of_int (sint acc))) \<and>
      (0 \<le> sint acc \<longrightarrow> sint acc \<le> 255 \<longrightarrow> uint (word_of_int (sint acc) :: u8) = sint acc) \<and>
      (sint acc < 0 \<or> 255 < sint acc \<longrightarrow> output_size a \<le> 2 ^ 32 \<longrightarrow>
       b < batchSize a \<longrightarrow> c < channelsOutput a \<longrightarrow> y < heightOutput a \<longrightarrow> x < widthOutput a \<longrightarrow>
         (\<exists>e. ConvImpl Q a out0 = Some (Inl e))))"
proof (intro conjI impI)
  assume nz: "outputScale a \<noteq> 0" and t: "requantize Q a acc = Inr t"
  from requantize_quantized [OF nz t]
  show "0 \<le> sint t" "sint t \<le> 255" by auto
  then obtain v where v: "numeric_cast_u8 t = Inr v" by (simp add: numeric_cast_u8_Inr)
  then show "\<exists>v. numeric_cast_u8 t = Inr v \<and> uint v = sint t"
    using numeric_cast_u8_uint(1) [OF v] by blast
next
  assume z: "outputScale a = 0" and acc: "accumulate a b c y x = Some (Inr acc)"
  have rq: "requantize Q a acc = Inr acc" using z by (simp add: requantize_def)
  show el: "conv_element Q a b c y x =
        Some (if sint acc < 0 then Inl NegativeOverflow
              else if 255 < sint acc then Inl PositiveOverflow
              else Inr (word_of_int (sint acc)))"
    using acc rq by (simp add: conv_element_def numeric_cast_u8_def del: of_int_sint)
  {
    assume "0 \<le> sint acc" "sint acc \<le> 255"
    then show "uint (word_of_int (sint acc) :: u8) = sint acc" by (rule uint_u8_of_int)
  }
  {
    assume bad: "sint acc < 0 \<or> 255 < sint acc" and fits: "output_size a \<le> 2 ^ 32"
      and r: "b < batchSize a" "c < channelsOutput a" "y < heightOutput a" "x < widthOutput a"
    obtain res where res: "ConvImpl Q a out0 = Some res"
      using ConvImpl_returns [of Q a out0] by auto
    show "\<exists>e. ConvImpl Q a out0 = Some (Inl e)"
    proof (cases res)
      case (Inl e)
      then show ?thesis using res by simp
    next
      case (Inr out)
      from ConvImpl_elements(1) [OF res [unfolded Inr] fits r] el bad
      show ?thesis by (auto split: if_splits)
    qed
  }
qed

theorem narrowing_never_wraps_witness:
  "outputScale quantized_args \<noteq> 0 \<and>
   requantize unit_multiplier quantized_args 574 = Inr 255 \<and>
   (\<exists>v. numeric_cast_u8 255 = Inr v \<and> uint v = sint (255 :: i32)) \<and>
   outputScale (quantized_args\<lparr>outputScale := 0\<rparr>) = 0 \<and>
   accumulate (quantized_args\<lparr>outputScale := 0\<rparr>) 0 0 0 0 = Some (Inr 574) \<and>
   conv_element unit_multiplier (quantized_args\<lparr>outputScale := 0\<rparr>) 0 0 0 0 =
     Some (Inl PositiveOverflow) \<and>
   accumulate (quantized_args\<lparr>outputScale := 0\<rparr>) 0 0 1 0 = Some (Inr (- 5)) \<and>
   conv_element unit_multiplier (quantized_args\<lparr>outputScale := 0\<rparr>) 0 0 1 0 =
     Some (Inl NegativeOverflow) \<and>
   (\<exists>e. ConvImpl unit_multiplier (quantized_args\<lparr>outputScale := 0\<rparr>) [0, 0, 0, 0] = Some (Inl e))"
proof -
  let ?p = "quantized_args\<lparr>outputScale := 0\<rparr>"
  have nz: "outputScale quantized_args \<noteq> 0" by (simp add: quantized_args_def)
  have rq: "requantize unit_multiplier quantized_args 574 = Inr 255" by code_simp
  have z: "outputScale ?p = 0" by simp
  have acc1: "accumulate ?p 0 0 0 0 = Some (Inr 574)" by code_simp
  have acc2: "accumulate ?p 0 0 1 0 = Some (Inr (- 5))" by code_simp
  have size: "output_size ?p \<le> 2 ^ 32"
    by (simp add: output_size_def batchSize_def channelsOutput_def heightOutput_def
          widthOutput_def quantized_args_def shape_def)
  have r: "(0 :: u32) < batchSize ?p" "(0 :: u32) < channelsOutput ?p"
    "(0 :: u32) < heightOutput ?p" "(0 :: u32) < widthOutput ?p"
    by (simp_all add: batchSize_def channelsOutput_def heightOutput_def
          widthOutput_def quantized_args_def shape_def)
  note q = narrowing_never_wraps [where a = quantized_args and Q = unit_multiplier
              and acc = 574 and t = 255]
  from q nz rq have narrow: "\<exists>v. numeric_cast_u8 255 = Inr v \<and> uint v = sint (255 :: i32)"
    by blast
  note t1 = narrowing_never_wraps [where a = ?p and Q = unit_multiplier and acc = 574
               and b = 0 and c = 0 and y = 0 and x = 0 and ?out0.0 = "[0, 0, 0, 0]"]
  from t1 z acc1 have el1: "conv_element unit_multiplier ?p 0 0 0 0 = Some (Inl PositiveOverflow)"
    by simp
  from t1 z acc1 size r have fails: "\<exists>e. ConvImpl unit_multiplier ?p [0, 0, 0, 0] = Some (Inl e)"
    by simp
  note t2 = narrowing_never_wraps [where a = ?p and Q = unit_multiplier and acc = "- 5"
               and b = 0 and c = 0 and y = 1 and x = 0]
  from t2 z acc2 have el2: "conv_element unit_multiplier ?p 0 0 1 0 = Some (Inl NegativeOverflow)"
    by simp
  show ?thesis using nz rq narrow z acc1 el1 acc2 el2 fails by blast
qed

section \<open>The bias\<close>

lemma bind_eq_Inl: "bind m f = Inl e \<longleftrightarrow> m = Inl e \<or> (\<exists>v. m = Inr v \<and> f v = Inl e)"
  by (cases m) simp_all

lemma bind_no_assert:
  assumes "m \<noteq> Inl AssertionFailed" "\<And>v. m = Inr v \<Longrightarrow> f v \<noteq> Inl AssertionFailed"
  shows "bind m f \<noteq> Inl AssertionFailed"
  using assms by (cases m) simp_all

lemma i32_of_no_assert: "i32_of v \<noteq> Inl AssertionFailed"
  by (simp add: i32_of_def)

lemma read_at_no_assert: "read_at buf i \<noteq> Inl AssertionFailed"
  by (simp add: read_at_def)

lemma for_each_no_assert:
  assumes "\<And>i s. i \<in> set xs \<Longrightarrow> body i s \<noteq> Inl AssertionFailed"
  shows "for_each xs body s \<noteq> Inl AssertionFailed"
  using assms
proof (induction xs arbitrary: s)
  case Nil
  then show ?case by simp
next
  case (Cons i xs)
  show ?case
    unfolding for_each.simps
    by (rule bind_no_assert) (simp_all add: Cons)
qed

lemma window_step_no_assert:
  "window_step a b cO y x cI dm yF xF acc \<noteq> Inl AssertionFailed"
  unfolding window_step_def filterValue_at_def inputValue_at_def sub_offset_def i32_mul_def
    i32_add_def
  by (intro bind_no_assert) (simp_all add: i32_of_no_assert read_at_no_assert bind_no_assert)

lemma window_loops_no_assert:
  "window_loops a b cO y x cI dm acc \<noteq> Inl AssertionFailed"
  unfolding window_loops_def
  by (intro for_each_no_assert window_step_no_assert)

lemma window_sum_no_assert: "window_sum a b cO y x \<noteq> Inl AssertionFailed"
  unfolding window_sum_def
  by (simp add: window_loops_no_assert for_each_no_assert)

lemma add_bias_no_assert: "add_bias a cO acc \<noteq> Inl AssertionFailed"
  by (auto simp: add_bias_def read_bias_def i32_add_def bind_eq_Inl i32_of_no_assert
        read_at_no_assert split: option.splits)

lemma requantize_no_assert:
  assumes "\<And>m. Q m \<noteq> Inl AssertionFailed"
  shows "requantize Q a acc \<noteq> Inl AssertionFailed"
  by (auto simp: requantize_def i32_add_def bind_eq_Inl i32_of_no_assert assms)

lemma numeric_cast_u8_no_assert: "numeric_cast_u8 t \<noteq> Inl AssertionFailed"
  by (simp add: numeric_cast_u8_def)

lemma store_no_assert:
  assumes "\<And>m. Q m \<noteq> Inl AssertionFailed" "c < channelsOutput a"
  shows "store_element Q a b c y x buf \<noteq> Some (Inl AssertionFailed)"
proof -
  have "bind (bind (bind (window_sum a b c y x) (add_bias a c))
                 (\<lambda>acc. bind (requantize Q a acc) numeric_cast_u8))
          (write_at buf (outputIndex a b c y x)) \<noteq> Inl AssertionFailed"
    by (intro bind_no_assert window_sum_no_assert add_bias_no_assert
          requantize_no_assert assms(1) numeric_cast_u8_no_assert)
       (simp add: write_at_def)
  then show ?thesis by (simp add: store_element_def conv_element_eq [OF assms(2)])
qed

lemma for_each_opt_no_assert:
  assumes "\<And>k s. k \<in> set ks \<Longrightarrow> f k s \<noteq> Some (Inl AssertionFailed)"
  shows "for_each_opt ks f s \<noteq> Some (Inl AssertionFailed)"
  using assms
proof (induction ks arbitrary: s)
  case Nil
  then show ?case by simp
next
  case (Cons k ks)
  have head: "f k s \<noteq> Some (Inl AssertionFailed)" by (rule Cons.prems) simp
  have tail: "\<And>s'. for_each_opt ks f s' \<noteq> Some (Inl AssertionFailed)"
    by (rule Cons.IH) (simp add: Cons.prems)
  show ?case using head tail by (auto split: option.splits sum.splits)
qed

lemma loops_no_assert:
  assumes "\<And>m. Q m \<noteq> Inl AssertionFailed"
  shows "for_each_opt (coords a)
             (store_at (\<lambda>(b, c, y, x). outputIndex a b c y x)
                       (\<lambda>(b, c, y, x). conv_element Q a b c y x)) out0 \<noteq> Some (Inl AssertionFailed)"
proof (rule for_each_opt_no_assert)
  fix k s assume k: "k \<in> set (coords a)"
  obtain b c y x where K: "k = (b, c, y, x)" by (cases k) auto
  from k have c: "c < channelsOutput a" by (simp add: K set_coords)
  show "store_at (\<lambda>(b, c, y, x). outputIndex a b c y x)
                       (\<lambda>(b, c, y, x). conv_element Q a b c y x) k s \<noteq> Some (Inl AssertionFailed)"
    using store_no_assert [of Q c a b y x s, OF assms c]
    by (simp add: K store_at_def store_element_def)
qed

text \<open>
  C8. With the bias enabled and a null bias pointer the kernel ends at the assertion of
  line 68. When the bias is disabled or the pointer is not null, the kernel is its four
  loops, and it does not end with a failed assertion (unless the constructor of the
  multiplier, which is not part of this function, fails one of its own). With the bias
  enabled, \<open>bias[cOutput]\<close> is added to the window sum, and the sum with the bias is what
  is requantized and narrowed.
\<close>

theorem bias_assertion:
  "(biasEnabled a \<and> biasData a = None \<longrightarrow> ConvImpl Q a out0 = Some (Inl AssertionFailed)) \<and>
   ((biasEnabled a \<longrightarrow> biasData a \<noteq> None) \<longrightarrow>
      ConvImpl Q a out0 =
        for_each_opt (range_u32 (batchSize a)) (\<lambda>batchIdx.
          for_each_opt (range_u32 (channelsOutput a)) (\<lambda>cOutput.
            for_each_opt (range_u32 (heightOutput a)) (\<lambda>yOutput.
              for_each_opt (range_u32 (widthOutput a)) (\<lambda>xOutput.
                store_element Q a batchIdx cOutput yOutput xOutput)))) out0 \<and>
      ((\<forall>m. Q m \<noteq> Inl AssertionFailed) \<longrightarrow> ConvImpl Q a out0 \<noteq> Some (Inl AssertionFailed))) \<and>
   (biasEnabled a \<longrightarrow> biasData a = Some bias \<longrightarrow> c < channelsOutput a \<longrightarrow>
      conv_element Q a b c y x =
        Some (bind (window_sum a b c y x) (\<lambda>window.
              bind (bind (read_at bias c) (i32_add window)) (\<lambda>acc.
              bind (requantize Q a acc) numeric_cast_u8))))"
proof (intro conjI impI)
  assume "biasEnabled a \<and> biasData a = None"
  then show "ConvImpl Q a out0 = Some (Inl AssertionFailed)" by (simp add: ConvImpl_def)
next
  assume pre: "biasEnabled a \<longrightarrow> biasData a \<noteq> None"
  then show "ConvImpl Q a out0 =
        for_each_opt (range_u32 (batchSize a)) (\<lambda>batchIdx.
          for_each_opt (range_u32 (channelsOutput a)) (\<lambda>cOutput.
            for_each_opt (range_u32 (heightOutput a)) (\<lambda>yOutput.
              for_each_opt (range_u32 (widthOutput a)) (\<lambda>xOutput.
                store_element Q a batchIdx cOutput yOutput xOutput)))) out0"
    by (simp add: ConvImpl_def)
  assume "\<forall>m. Q m \<noteq> Inl AssertionFailed"
  then show "ConvImpl Q a out0 \<noteq> Some (Inl AssertionFailed)"
    using pre loops_no_assert [of Q a out0] by (auto simp: ConvImpl_flat)
next
  assume "biasEnabled a" "biasData a = Some bias" and c: "c < channelsOutput a"
  then have "add_bias a c = (\<lambda>window. bind (read_at bias c) (i32_add window))"
    by (simp add: add_bias_def read_bias_def fun_eq_iff)
  then show "conv_element Q a b c y x =
        Some (bind (window_sum a b c y x) (\<lambda>window.
              bind (bind (read_at bias c) (i32_add window)) (\<lambda>acc.
              bind (requantize Q a acc) numeric_cast_u8)))"
    by (cases "window_sum a b c y x") (simp_all add: conv_element_eq [OF c])
qed

theorem bias_assertion_witness:
  "biasEnabled (quantized_args\<lparr>biasData := None\<rparr>) \<and>
   biasData (quantized_args\<lparr>biasData := None\<rparr>) = None \<and>
   ConvImpl unit_multiplier (quantized_args\<lparr>biasData := None\<rparr>) [0, 0, 0, 0] =
     Some (Inl AssertionFailed) \<and>
   biasEnabled quantized_args \<and> biasData quantized_args = Some [4] \<and>
   (\<forall>m. unit_multiplier m \<noteq> Inl AssertionFailed) \<and> (0 :: u32) < channelsOutput quantized_args \<and>
   ConvImpl unit_multiplier quantized_args [0, 0, 0, 0] \<noteq> Some (Inl AssertionFailed) \<and>
   window_sum quantized_args 0 0 0 0 = Inr 570 \<and> read_at [4 :: i32] 0 = Inr 4 \<and>
   i32_add 570 4 = Inr 574 \<and>
   conv_element unit_multiplier quantized_args 0 0 0 0 = Some (Inr 255)"
proof -
  let ?n = "quantized_args\<lparr>biasData := None\<rparr>"
  have en: "biasEnabled ?n" "biasData ?n = None"
    by (simp_all add: biasEnabled_def quantized_args_def)
  have en': "biasEnabled quantized_args" "biasData quantized_args = Some [4]"
    by (simp_all add: biasEnabled_def quantized_args_def)
  have Q: "\<forall>m. unit_multiplier m \<noteq> Inl AssertionFailed" by (simp add: unit_multiplier_def)
  have c: "(0 :: u32) < channelsOutput quantized_args"
    by (simp add: channelsOutput_def quantized_args_def shape_def)
  have w: "window_sum quantized_args 0 0 0 0 = Inr 570" by code_simp
  have b: "read_at [4 :: i32] 0 = Inr 4" by code_simp
  have s: "i32_add 570 4 = Inr 574" by code_simp
  have rq: "bind (requantize unit_multiplier quantized_args 574) numeric_cast_u8 = Inr 255"
    by code_simp
  from bias_assertion [of ?n unit_multiplier "[0, 0, 0, 0]"] en
  have fires: "ConvImpl unit_multiplier ?n [0, 0, 0, 0] = Some (Inl AssertionFailed)"
    by blast
  note t = bias_assertion [of quantized_args unit_multiplier "[0, 0, 0, 0]" "[4]" 0 0 0 0]
  from t en' Q have quiet: "ConvImpl unit_multiplier quantized_args [0, 0, 0, 0]
                            \<noteq> Some (Inl AssertionFailed)"
    by blast
  from t en' c have "conv_element unit_multiplier quantized_args 0 0 0 0 =
        Some (bind (window_sum quantized_args 0 0 0 0) (\<lambda>window.
              bind (bind (read_at [4] 0) (i32_add window)) (\<lambda>acc.
              bind (requantize unit_multiplier quantized_args acc) numeric_cast_u8)))"
    by blast
  then have el: "conv_element unit_multiplier quantized_args 0 0 0 0 = Some (Inr 255)"
    by (simp add: w b s rq)
  show ?thesis using en fires en' Q c quiet w b s el by blast
qed

section \<open>Padding\<close>

lemma i32_add_zero_left [simp]: "i32_add 0 x = Inr x"
  by (simp add: i32_add_def)

lemma window_step_in_padding:
  assumes "in_padding a (yOutput * hStride a + yFilter) (xOutput * xStride a + xFilter)"
  shows "window_step a batchIdx cOutput yOutput xOutput cInput dm yFilter xFilter acc =
         bind (filterValue_at a (filterIndex a cOutput cInput dm yFilter xFilter))
           (\<lambda>filterValue. Inr acc)"
  using assms by (simp add: window_step_def inputValue_at_def)

lemma for_each_unchanged:
  assumes "for_each xs body s = Inr s'"
      and "\<And>i t t'. i \<in> set xs \<Longrightarrow> body i t = Inr t' \<Longrightarrow> t' = t"
  shows "s' = s"
  using assms
proof (induction xs arbitrary: s)
  case Nil
  then show ?case by simp
next
  case (Cons i xs)
  from Cons.prems(1) obtain t where t: "body i s = Inr t" and rest: "for_each xs body t = Inr s'"
    by (auto simp: bind_eq_Inr)
  have "t = s" using Cons.prems(2) [of i s t] t by simp
  moreover have "s' = t"
  proof (rule Cons.IH [OF rest])
    fix j u u' assume "j \<in> set xs" "body j u = Inr u'"
    then show "u' = u" using Cons.prems(2) [of j u u'] by simp
  qed
  ultimately show ?case by simp
qed

lemma window_loops_in_padding:
  assumes "window_in_padding a yOutput xOutput"
      and "window_loops a batchIdx cOutput yOutput xOutput cInput dm acc = Inr acc'"
  shows "acc' = acc"
proof (rule for_each_unchanged [OF assms(2) [unfolded window_loops_def]])
  fix yFilter t t'
  assume y: "yFilter \<in> set (range_u32 (heightFilter a))"
    and row: "for_each (range_u32 (widthFilter a))
                (window_step a batchIdx cOutput yOutput xOutput cInput dm yFilter) t = Inr t'"
  show "t' = t"
  proof (rule for_each_unchanged [OF row])
    fix xFilter u u'
    assume x: "xFilter \<in> set (range_u32 (widthFilter a))"
      and step: "window_step a batchIdx cOutput yOutput xOutput cInput dm yFilter xFilter u = Inr u'"
    have "in_padding a (yOutput * hStride a + yFilter) (xOutput * xStride a + xFilter)"
      using assms(1) x y by (simp add: window_in_padding_def list_all_iff)
    from step [unfolded window_step_in_padding [OF this]] show "u' = u"
      by (auto simp: bind_eq_Inr)
  qed
qed

lemma window_sum_in_padding:
  assumes "window_in_padding a yOutput xOutput"
      and "window_sum a batchIdx cOutput yOutput xOutput = Inr acc"
  shows "acc = 0"
proof (cases "depthwise a")
  case True
  then show ?thesis
    using assms(2) window_loops_in_padding [OF assms(1)] by (simp add: window_sum_def)
next
  case False
  then have "for_each (range_u32 (channelsInput a))
             (\<lambda>cInput. window_loops a batchIdx cOutput yOutput xOutput cInput 0) 0 = Inr acc"
    using assms(2) by (simp add: window_sum_def)
  then show ?thesis
    by (rule for_each_unchanged) (rule window_loops_in_padding [OF assms(1)])
qed

lemma accumulate_in_padding:
  assumes "window_in_padding a yOutput xOutput" "cOutput < channelsOutput a"
      and "accumulate a batchIdx cOutput yOutput xOutput = Some (Inr biased)"
  shows "if biasEnabled a
         then \<exists>bias. biasData a = Some bias \<and> unat cOutput < length bias \<and>
                     biased = bias ! unat cOutput
         else biased = 0"
proof -
  from assms(3) obtain acc where w: "window_sum a batchIdx cOutput yOutput xOutput = Inr acc"
    and b: "add_bias a cOutput acc = Inr biased"
    by (auto simp: accumulate_eq [OF assms(2)] bind_eq_Inr)
  have "acc = 0" by (rule window_sum_in_padding [OF assms(1) w])
  then show ?thesis using b
    by (auto simp: add_bias_def read_bias_def read_at_def bind_eq_Inr
             split: option.splits if_splits)
qed

text \<open>
  C1. A window position whose input coordinate lies in the padding contributes nothing:
  the input value there is zero itself (the input zero-point is not subtracted from it), so
  the step leaves the accumulator as it was once the filter element has been read. For an
  output coordinate whose whole window lies in the padding the accumulator is therefore
  the bias of its channel, or zero when the bias is disabled; with \<^verbatim>\<open>outputScale == 0\<close>
  that is the value found in the buffer the kernel returns.
\<close>

theorem padding_contributes_zero:
  "(in_padding a (yOutput * hStride a + yFilter) (xOutput * xStride a + xFilter) \<longrightarrow>
      inputValue_at a batchIdx cInput (yOutput * hStride a + yFilter) (xOutput * xStride a + xFilter)
        = Inr 0 \<and>
      window_step a batchIdx cOutput yOutput xOutput cInput dm yFilter xFilter acc =
        bind (filterValue_at a (filterIndex a cOutput cInput dm yFilter xFilter))
          (\<lambda>filterValue. Inr acc)) \<and>
   (window_in_padding a yOutput xOutput \<longrightarrow> cOutput < channelsOutput a \<longrightarrow>
    accumulate a batchIdx cOutput yOutput xOutput = Some (Inr biased) \<longrightarrow>
      (if biasEnabled a
       then \<exists>bias. biasData a = Some bias \<and> unat cOutput < length bias \<and>
                   biased = bias ! unat cOutput
       else biased = 0)) \<and>
   (window_in_padding a yOutput xOutput \<longrightarrow> outputScale a = 0 \<longrightarrow>
    ConvImpl Q a out0 = Some (Inr out) \<longrightarrow> output_size a \<le> 2 ^ 32 \<longrightarrow>
    batchIdx < batchSize a \<longrightarrow> cOutput < channelsOutput a \<longrightarrow>
    yOutput < heightOutput a \<longrightarrow> xOutput < widthOutput a \<longrightarrow>
      (if biasEnabled a
       then \<exists>bias. biasData a = Some bias \<and> unat cOutput < length bias \<and>
              uint (out ! unat (outputIndex a batchIdx cOutput yOutput xOutput)) =
                sint (bias ! unat cOutput)
       else out ! unat (outputIndex a batchIdx cOutput yOutput xOutput) = 0))"
proof (intro conjI impI)
  assume p: "in_padding a (yOutput * hStride a + yFilter) (xOutput * xStride a + xFilter)"
  then show "inputValue_at a batchIdx cInput (yOutput * hStride a + yFilter)
               (xOutput * xStride a + xFilter) = Inr 0"
    by (simp add: inputValue_at_def)
  show "window_step a batchIdx cOutput yOutput xOutput cInput dm yFilter xFilter acc =
        bind (filterValue_at a (filterIndex a cOutput cInput dm yFilter xFilter))
          (\<lambda>filterValue. Inr acc)"
    by (rule window_step_in_padding [OF p])
next
  assume "window_in_padding a yOutput xOutput" "cOutput < channelsOutput a"
    "accumulate a batchIdx cOutput yOutput xOutput = Some (Inr biased)"
  then show "if biasEnabled a
       then \<exists>bias. biasData a = Some bias \<and> unat cOutput < length bias \<and>
                   biased = bias ! unat cOutput
       else biased = 0"
    by (rule accumulate_in_padding)
next
  assume w: "window_in_padding a yOutput xOutput" and z: "outputScale a = 0"
    and run: "ConvImpl Q a out0 = Some (Inr out)" and fits: "output_size a \<le> 2 ^ 32"
    and r: "batchIdx < batchSize a" "cOutput < channelsOutput a"
      "yOutput < heightOutput a" "xOutput < widthOutput a"
  let ?v = "out ! unat (outputIndex a batchIdx cOutput yOutput xOutput)"
  have rq: "\<And>acc. requantize Q a acc = Inr acc" using z by (simp add: requantize_def)
  from ConvImpl_elements(1) [OF run fits r]
  obtain biased where acc: "accumulate a batchIdx cOutput yOutput xOutput = Some (Inr biased)"
    and v: "numeric_cast_u8 biased = Inr ?v"
    by (auto simp: conv_element_def bind_eq_Inr rq)
  note tot = accumulate_in_padding [OF w r(2) acc]
  have u: "uint ?v = sint biased" by (rule numeric_cast_u8_uint(1) [OF v])
  show "if biasEnabled a
       then \<exists>bias. biasData a = Some bias \<and> unat cOutput < length bias \<and>
              uint ?v = sint (bias ! unat cOutput)
       else ?v = 0"
  proof (cases "biasEnabled a")
    case True
    then show ?thesis using tot u by auto
  next
    case False
    then have "biased = 0" using tot by simp
    then have "uint ?v = 0" using u by simp
    then have "?v = 0" by (simp add: uint_0_iff)
    then show ?thesis using False by simp
  qed
qed



theorem padding_contributes_zero_witness:
  "in_padding padded_args (0 * hStride padded_args + 1) (0 * xStride padded_args + 1) \<and>
   inputValue_at padded_args 0 0 (0 * hStride padded_args + 1) (0 * xStride padded_args + 1) = Inr 0 \<and>
   window_step padded_args 0 0 0 0 0 0 1 1 0 = Inr 0 \<and>
   window_in_padding padded_args 0 0 \<and> (0 :: u32) < channelsOutput padded_args \<and>
   \<not> biasEnabled padded_args \<and> outputScale padded_args = 0 \<and>
   accumulate padded_args 0 0 0 0 = Some (Inr 0) \<and>
   ConvImpl unit_multiplier padded_args (replicate 9 7) = Some (Inr [0, 0, 0, 0, 2, 5, 0, 6, 14]) \<and>
   output_size padded_args \<le> 2 ^ 32 \<and>
   [0, 0, 0, 0, 2, 5, 0, 6, 14 :: u8] ! unat (outputIndex padded_args 0 0 0 0) = 0 \<and>
   window_in_padding depthwise_args 0 2 \<and> (3 :: u32) < channelsOutput depthwise_args \<and>
   biasEnabled depthwise_args \<and> outputScale depthwise_args = 0 \<and>
   accumulate depthwise_args 0 3 0 2 = Some (Inr 40) \<and>
   (\<exists>bias. biasData depthwise_args = Some bias \<and> unat (3 :: u32) < length bias \<and>
      (40 :: i32) = bias ! unat (3 :: u32))"
proof -
  let ?out = "[0, 0, 0, 0, 2, 5, 0, 6, 14 :: u8]"
  have pad: "in_padding padded_args (0 * hStride padded_args + 1) (0 * xStride padded_args + 1)"
    by code_simp
  have win: "window_in_padding padded_args 0 0" by code_simp
  have c: "(0 :: u32) < channelsOutput padded_args"
    by (simp add: channelsOutput_def padded_args_def shape_def)
  have nb: "\<not> biasEnabled padded_args" by (simp add: biasEnabled_def padded_args_def)
  have z: "outputScale padded_args = 0" by (simp add: padded_args_def)
  have fv: "filterValue_at padded_args (filterIndex padded_args 0 0 0 1 1) = Inr 1" by code_simp
  have acc: "accumulate padded_args 0 0 0 0 = Some (Inr 0)" by code_simp
  have run: "ConvImpl unit_multiplier padded_args (replicate 9 7) = Some (Inr ?out)" by code_simp
  have size: "output_size padded_args \<le> 2 ^ 32"
    by (simp add: output_size_def batchSize_def channelsOutput_def heightOutput_def
          widthOutput_def padded_args_def shape_def)
  have r: "(0 :: u32) < batchSize padded_args" "(0 :: u32) < heightOutput padded_args"
    "(0 :: u32) < widthOutput padded_args"
    by (simp_all add: batchSize_def heightOutput_def widthOutput_def padded_args_def shape_def)
  note t = padding_contributes_zero [where a = padded_args and yOutput = 0 and xOutput = 0
      and yFilter = 1 and xFilter = 1 and batchIdx = 0 and cInput = 0 and cOutput = 0 and dm = 0
      and acc = 0 and biased = 0 and Q = unit_multiplier and ?out0.0 = "replicate 9 7"
      and out = ?out]
  from t pad have iv: "inputValue_at padded_args 0 0 (0 * hStride padded_args + 1)
                         (0 * xStride padded_args + 1) = Inr 0"
    by blast
  from t pad have "window_step padded_args 0 0 0 0 0 0 1 1 0 =
        bind (filterValue_at padded_args (filterIndex padded_args 0 0 0 1 1))
          (\<lambda>filterValue. Inr 0)"
    by blast
  then have step: "window_step padded_args 0 0 0 0 0 0 1 1 0 = Inr 0" by (simp add: fv)
  from t win z run size c r nb
  have el: "?out ! unat (outputIndex padded_args 0 0 0 0) = 0"
    by simp
  have win': "window_in_padding depthwise_args 0 2" by code_simp
  have c': "(3 :: u32) < channelsOutput depthwise_args"
    by (simp add: channelsOutput_def channelsInput_def depthMult_def depthwise_args_def shape_def)
  have b': "biasEnabled depthwise_args" by (simp add: biasEnabled_def depthwise_args_def)
  have z': "outputScale depthwise_args = 0" by (simp add: depthwise_args_def)
  have acc': "accumulate depthwise_args 0 3 0 2 = Some (Inr 40)" by code_simp
  note t' = padding_contributes_zero [where a = depthwise_args and yOutput = 0 and xOutput = 2
      and batchIdx = 0 and cOutput = 3 and biased = 40]
  from t' win' c' acc' b'
  have bias: "\<exists>bias. biasData depthwise_args = Some bias \<and> unat (3 :: u32) < length bias \<and>
      (40 :: i32) = bias ! unat (3 :: u32)"
    by simp
  show ?thesis
    using pad iv step win c nb z acc run size el win' c' b' z' acc' bias by blast
qed

section \<open>The input index\<close>

lemma unat_add_le: "unat (x + y :: u32) \<le> unat x + unat y"
  by (simp add: unat_word_ariths)

lemma in_region_axis:
  assumes "\<not> (v < p)" "\<not> (v \<ge> n + (p :: u32))"
  shows "unat p \<le> unat v"
    and "unat (v - p) = unat v - unat p"
    and "unat v - unat p < unat n"
proof -
  from assms(1) have le: "p \<le> v" by simp
  then show 1: "unat p \<le> unat v" by (simp add: word_le_nat_alt)
  from le show "unat (v - p) = unat v - unat p"
    by (rule unat_sub)
  from assms(2) have "v < n + p" by simp
  then have "unat v < unat (n + p)"
    by (simp add: word_less_nat_alt)
  then have "unat v < unat n + unat p"
    using unat_add_le [of n p] by simp
  then show "unat v - unat p < unat n" using 1 by simp
qed

lemma inputIndex_of_nat:
  "inputIndex a b c yInput xInput =
   of_nat (flat_index (unat (channelsInput a)) (unat (heightInput a)) (unat (widthInput a))
            (unat b) (unat c) (unat (yInput - paddingTop a)) (unat (xInput - paddingLeft a)))"
  by (simp add: inputIndex_def flat_index_def algebra_simps)

lemma unat_inputIndex:
  assumes "\<not> in_padding a yInput xInput"
      and "input_size a \<le> 2 ^ 32"
      and "b < batchSize a" "c < channelsInput a"
  shows "unat (inputIndex a b c yInput xInput) =
         flat_index (unat (channelsInput a)) (unat (heightInput a)) (unat (widthInput a))
            (unat b) (unat c) (unat yInput - unat (paddingTop a))
            (unat xInput - unat (paddingLeft a))"
    and "unat (inputIndex a b c yInput xInput) < input_size a"
proof -
  let ?f = "flat_index (unat (channelsInput a)) (unat (heightInput a)) (unat (widthInput a))
            (unat b) (unat c) (unat yInput - unat (paddingTop a))
            (unat xInput - unat (paddingLeft a))"
  from assms(1) have y: "\<not> (yInput < paddingTop a)" "\<not> (yInput \<ge> heightInput a + paddingTop a)"
    and x: "\<not> (xInput < paddingLeft a)" "\<not> (xInput \<ge> widthInput a + paddingLeft a)"
    by (simp_all add: in_padding_def)
  have lt: "?f < input_size a"
    unfolding input_size_def
    using assms(3,4) in_region_axis(3) [OF y] in_region_axis(3) [OF x]
    by (intro flat_index_less) (simp_all add: word_less_nat_alt)
  then have "?f < 2 ^ LENGTH(32)" using assms(2) by simp
  moreover have "inputIndex a b c yInput xInput = of_nat ?f"
    by (simp only: inputIndex_of_nat in_region_axis(2) [OF y] in_region_axis(2) [OF x])
  ultimately show eq: "unat (inputIndex a b c yInput xInput) = ?f"
    by (intro of_nat_inverse) simp_all
  show "unat (inputIndex a b c yInput xInput) < input_size a" using eq lt by simp
qed

lemma unat_mult_le: "unat (x * y :: u32) \<le> unat x * unat y"
  by (simp add: unat_word_ariths)

lemma depthwise_channel_less:
  assumes "depthwise a" "cOutput < channelsOutput a"
  shows "cOutput div depthMult a < channelsInput a"
proof -
  have "unat cOutput < unat (channelsInput a * depthMult a)"
    using assms by (simp add: channelsOutput_def word_less_nat_alt)
  then have "unat cOutput < unat (channelsInput a) * unat (depthMult a)"
    using unat_mult_le [of "channelsInput a" "depthMult a"] by simp
  then have "unat cOutput div unat (depthMult a) < unat (channelsInput a)"
    by (simp add: less_mult_imp_div_less)
  then show ?thesis by (simp add: word_less_nat_alt unat_div)
qed

lemma inputIndex_mod:
  assumes "\<not> in_padding a yInput xInput"
      and "b < batchSize a" "c < channelsInput a"
  shows "unat (inputIndex a b c yInput xInput) =
         flat_index (unat (channelsInput a)) (unat (heightInput a)) (unat (widthInput a))
            (unat b) (unat c) (unat yInput - unat (paddingTop a))
            (unat xInput - unat (paddingLeft a)) mod 2 ^ 32"
    and "flat_index (unat (channelsInput a)) (unat (heightInput a)) (unat (widthInput a))
            (unat b) (unat c) (unat yInput - unat (paddingTop a))
            (unat xInput - unat (paddingLeft a)) < input_size a"
    and "unat (inputIndex a b c yInput xInput) < input_size a"
proof -
  let ?f = "flat_index (unat (channelsInput a)) (unat (heightInput a)) (unat (widthInput a))
            (unat b) (unat c) (unat yInput - unat (paddingTop a))
            (unat xInput - unat (paddingLeft a))"
  from assms(1) have y: "\<not> (yInput < paddingTop a)" "\<not> (yInput \<ge> heightInput a + paddingTop a)"
    and x: "\<not> (xInput < paddingLeft a)" "\<not> (xInput \<ge> widthInput a + paddingLeft a)"
    by (simp_all add: in_padding_def)
  have "inputIndex a b c yInput xInput = of_nat ?f"
    by (simp only: inputIndex_of_nat in_region_axis(2) [OF y] in_region_axis(2) [OF x])
  then show eq: "unat (inputIndex a b c yInput xInput) = ?f mod 2 ^ 32"
    by (simp add: unat_of_nat)
  show lt: "?f < input_size a"
    unfolding input_size_def
    using assms(2,3) in_region_axis(3) [OF y] in_region_axis(3) [OF x]
    by (intro flat_index_less) (simp_all add: word_less_nat_alt)
  have "?f mod 2 ^ 32 \<le> ?f" by simp
  then show "unat (inputIndex a b c yInput xInput) < input_size a"
    using eq lt by simp
qed

lemma flat_index_source_order:
  "flat_index C H W b c y x = b * W * H * C + c * W * H + y * W + x"
  by (simp add: flat_index_def algebra_simps)

text \<open>
  C9. For a window position whose input coordinate is not in the padding, and a batch index
  and an input channel of the kernel's loops: the coordinate is at least the padding and,
  with the padding subtracted, below the input extent; the natural number
  \<open>n = batchIdx * Win * Hin * Cin + inChannel * Win * Hin + (inRow - padTop) * Win +
  (inCol - padLeft)\<close> is below the number of input elements, and the index read is \<open>n\<close> in
  \<^verbatim>\<open>unsigned int\<close> arithmetic, which is \<open>n\<close> itself when the input has at most \<open>2 ^ 32\<close>
  elements and is below the number of input elements in any case; the contribution is the
  element there, widened, minus \<^verbatim>\<open>inputOffset\<close>. In depthwise mode the channel
  \<open>cOutput div depthMult\<close> is an input channel.
\<close>

theorem input_index_in_region:
  assumes "\<not> in_padding a yInput xInput"
      and "batchIdx < batchSize a" "cInput < channelsInput a"
  shows "\<exists>n. n = unat batchIdx * unat (widthInput a) * unat (heightInput a) * unat (channelsInput a) +
                unat cInput * unat (widthInput a) * unat (heightInput a) +
                (unat yInput - unat (paddingTop a)) * unat (widthInput a) +
                (unat xInput - unat (paddingLeft a)) \<and>
             unat (paddingTop a) \<le> unat yInput \<and> unat (paddingLeft a) \<le> unat xInput \<and>
             unat yInput - unat (paddingTop a) < unat (heightInput a) \<and>
             unat xInput - unat (paddingLeft a) < unat (widthInput a) \<and>
             n < input_size a \<and>
             unat (inputIndex a batchIdx cInput yInput xInput) = n mod 2 ^ 32 \<and>
             (input_size a \<le> 2 ^ 32 \<longrightarrow> unat (inputIndex a batchIdx cInput yInput xInput) = n) \<and>
             unat (inputIndex a batchIdx cInput yInput xInput) < input_size a \<and>
             inputValue_at a batchIdx cInput yInput xInput =
               bind (read_at (inputData a) (inputIndex a batchIdx cInput yInput xInput))
                 (\<lambda>v. i32_of (uint v - sint (inputOffset a))) \<and>
             (input_size a \<le> length (inputData a) \<longrightarrow>
                inputValue_at a batchIdx cInput yInput xInput =
                  i32_of (uint (inputData a ! (n mod 2 ^ 32)) - sint (inputOffset a))) \<and>
             (depthwise a \<longrightarrow> cOutput < channelsOutput a \<longrightarrow>
                cOutput div depthMult a < channelsInput a)"
proof -
  let ?n = "unat batchIdx * unat (widthInput a) * unat (heightInput a) * unat (channelsInput a) +
           unat cInput * unat (widthInput a) * unat (heightInput a) +
           (unat yInput - unat (paddingTop a)) * unat (widthInput a) +
           (unat xInput - unat (paddingLeft a))"
  let ?i = "inputIndex a batchIdx cInput yInput xInput"
  from assms(1) have y: "\<not> (yInput < paddingTop a)" "\<not> (yInput \<ge> heightInput a + paddingTop a)"
    and x: "\<not> (xInput < paddingLeft a)" "\<not> (xInput \<ge> widthInput a + paddingLeft a)"
    by (simp_all add: in_padding_def)
  note m = inputIndex_mod [OF assms, unfolded flat_index_source_order]
  have idx: "unat ?i = ?n mod 2 ^ 32" by (rule m(1))
  have n: "?n < input_size a" by (rule m(2))
  have lt: "unat ?i < input_size a" by (rule m(3))
  have exact: "unat ?i = ?n" if "input_size a \<le> 2 ^ 32"
  proof -
    have "?n < 2 ^ 32" using n that by simp
    then show ?thesis using idx by simp
  qed
  have val: "inputValue_at a batchIdx cInput yInput xInput =
           bind (read_at (inputData a) ?i) (\<lambda>v. i32_of (uint v - sint (inputOffset a)))"
    using assms(1) by (simp add: inputValue_at_def sub_offset_def)
  have rd: "inputValue_at a batchIdx cInput yInput xInput =
              i32_of (uint (inputData a ! (?n mod 2 ^ 32)) - sint (inputOffset a))"
    if "input_size a \<le> length (inputData a)"
  proof -
    have "unat ?i < length (inputData a)" using lt that by simp
    then show ?thesis by (simp add: val read_at_def idx)
  qed
  show ?thesis
    using in_region_axis(1,3) [OF y] in_region_axis(1,3) [OF x] idx n lt exact val rd
      depthwise_channel_less [of a cOutput]
    by blast
qed

theorem input_index_in_region_witness:
  "\<not> in_padding depthwise_args 1 2 \<and>
   (0 :: u32) < batchSize depthwise_args \<and> (1 :: u32) < channelsInput depthwise_args \<and>
   input_size depthwise_args \<le> 2 ^ 32 \<and>
   input_size depthwise_args \<le> length (inputData depthwise_args) \<and>
   depthwise depthwise_args \<and> (3 :: u32) < channelsOutput depthwise_args \<and>
   unat (inputIndex depthwise_args 0 1 1 2) = 5 \<and>
   inputValue_at depthwise_args 0 1 1 2 = i32_of (uint (inputData depthwise_args ! 5) - 2) \<and>
   inputValue_at depthwise_args 0 1 1 2 = Inr 6 \<and>
   (3 :: u32) div depthMult depthwise_args < channelsInput depthwise_args"
proof -
  have p: "\<not> in_padding depthwise_args 1 2" by code_simp
  have size: "input_size depthwise_args = 8"
    by (simp add: input_size_def batchSize_def channelsInput_def heightInput_def widthInput_def
          depthwise_args_def shape_def)
  have r: "(0 :: u32) < batchSize depthwise_args" "(1 :: u32) < channelsInput depthwise_args"
    by (simp_all add: batchSize_def channelsInput_def depthwise_args_def shape_def)
  have len: "length (inputData depthwise_args) = 8" by (simp add: depthwise_args_def)
  have d: "depthwise depthwise_args" by (simp add: depthwise_args_def)
  have c: "(3 :: u32) < channelsOutput depthwise_args"
    by (simp add: channelsOutput_def channelsInput_def depthMult_def depthwise_args_def shape_def)
  have dims: "unat (widthInput depthwise_args) = 2" "unat (heightInput depthwise_args) = 2"
    "unat (channelsInput depthwise_args) = 2" "unat (paddingTop depthwise_args) = 1"
    "unat (paddingLeft depthwise_args) = 1"
    by (simp_all add: widthInput_def heightInput_def channelsInput_def paddingTop_def
          paddingLeft_def depthwise_args_def shape_def)
  have off: "sint (inputOffset depthwise_args) = 2" by (simp add: depthwise_args_def)
  have s: "input_size depthwise_args \<le> 2 ^ 32" by (simp add: size)
  have le: "input_size depthwise_args \<le> length (inputData depthwise_args)"
    by (simp add: size len)
  from input_index_in_region [OF p r, of 3] s le d c
  obtain n where n: "n = unat (0 :: u32) * unat (widthInput depthwise_args) *
                 unat (heightInput depthwise_args) * unat (channelsInput depthwise_args) +
               unat (1 :: u32) * unat (widthInput depthwise_args) *
                 unat (heightInput depthwise_args) +
               (unat (1 :: u32) - unat (paddingTop depthwise_args)) *
                 unat (widthInput depthwise_args) +
               (unat (2 :: u32) - unat (paddingLeft depthwise_args))"
    and ix: "unat (inputIndex depthwise_args 0 1 1 2) = n"
    and rd: "inputValue_at depthwise_args 0 1 1 2 =
               i32_of (uint (inputData depthwise_args ! (n mod 2 ^ 32)) -
                 sint (inputOffset depthwise_args))"
    and ch: "(3 :: u32) div depthMult depthwise_args < channelsInput depthwise_args"
    by blast
  have n5: "n = 5" by (simp add: n dims)
  have idx: "unat (inputIndex depthwise_args 0 1 1 2) = 5" using ix n5 by simp
  have val: "inputValue_at depthwise_args 0 1 1 2 =
               i32_of (uint (inputData depthwise_args ! 5) - 2)"
    using rd by (simp add: n5 off)
  then have val': "inputValue_at depthwise_args 0 1 1 2 = Inr 6"
    by (simp add: depthwise_args_def i32_of_def in_i32_def)
  show ?thesis using p r s le d c idx val val' ch by blast
qed

section \<open>Depthwise convolution channel by channel\<close>

lemma concat_uniform:
  assumes "\<And>ys. ys \<in> set yss \<Longrightarrow> length ys = n"
  shows "length (concat yss) = length yss * n"
    and "i < length yss \<Longrightarrow> j < n \<Longrightarrow> concat yss ! (i * n + j) = yss ! i ! j"
  using assms
proof (induction yss arbitrary: i)
  case Nil
  { case 1 show ?case by simp }
  { case 2 then show ?case by simp }
next
  case (Cons ys yss)
  { case 1
    then show ?case using Cons.IH(1) by simp }
  { case 2
    have len: "length ys = n" using 2(3) by simp
    show ?case
    proof (cases i)
      case 0
      then show ?thesis using 2(2) len by (simp add: nth_append)
    next
      case (Suc k)
      then have "k < length yss" using 2(1) by simp
      then have "concat yss ! (k * n + j) = yss ! k ! j"
        using Cons.IH(2) [of k] 2(2,3) by simp
      then show ?thesis using Suc len by (simp add: nth_append)
    qed }
qed


lemma block_bound:
  assumes "b < N" "c < (C :: nat)"
  shows "(b * C + c) * HW + HW \<le> N * C * HW"
proof -
  have "b * C + c < N * C" by (rule radix_less [OF assms(2,1)])
  then have "Suc (b * C + c) * HW \<le> (N * C) * HW" by (intro mult_le_mono1) simp
  then show ?thesis by (simp add: algebra_simps)
qed

lemma channel_slice_props:
  assumes "length xs = N * C * HW" "c < C"
  shows "length (channel_slice N C HW c xs) = N * HW"
    and "b < N \<Longrightarrow> r < HW \<Longrightarrow>
         channel_slice N C HW c xs ! (b * HW + r) = xs ! ((b * C + c) * HW + r)"
proof -
  let ?blocks = "map (\<lambda>b. take HW (drop ((b * C + c) * HW) xs)) [0..<N]"
  have uni: "\<And>ys. ys \<in> set ?blocks \<Longrightarrow> length ys = HW"
  proof -
    fix ys assume "ys \<in> set ?blocks"
    then obtain b where b: "b < N" and ys: "ys = take HW (drop ((b * C + c) * HW) xs)" by auto
    show "length ys = HW"
      using block_bound [OF b assms(2), of HW] assms(1) by (simp add: ys)
  qed
  show "length (channel_slice N C HW c xs) = N * HW"
    unfolding channel_slice_def using concat_uniform(1) [of ?blocks HW, OF uni] by simp
  assume b: "b < N" and r: "r < HW"
  have "concat ?blocks ! (b * HW + r) = ?blocks ! b ! r"
    using b r by (intro concat_uniform(2) uni) simp_all
  also have "\<dots> = xs ! ((b * C + c) * HW + r)"
  proof -
    have "(b * C + c) * HW \<le> (b * C + c) * HW + HW" by simp
    also have "\<dots> \<le> N * C * HW" by (rule block_bound [OF b assms(2)])
    finally have "(b * C + c) * HW \<le> length xs" by (simp only: assms(1))
    then show ?thesis using b r by (simp add: nth_drop)
  qed
  finally show "channel_slice N C HW c xs ! (b * HW + r) = xs ! ((b * C + c) * HW + r)"
    by (simp add: channel_slice_def)
qed

lemma concat_channels_props:
  assumes "length o0 = N * HW" "length o1 = N * HW"
  shows "length (concat_channels N HW o0 o1) = N * 2 * HW"
    and "b < N \<Longrightarrow> r < HW \<Longrightarrow> concat_channels N HW o0 o1 ! ((b * 2 + 0) * HW + r) = o0 ! (b * HW + r)"
    and "b < N \<Longrightarrow> r < HW \<Longrightarrow> concat_channels N HW o0 o1 ! ((b * 2 + 1) * HW + r) = o1 ! (b * HW + r)"
proof -
  let ?blocks = "map (\<lambda>b. take HW (drop (b * HW) o0) @ take HW (drop (b * HW) o1)) [0..<N]"
  have inb: "\<And>b. b < N \<Longrightarrow> b * HW + HW \<le> N * HW"
  proof -
    fix b assume "b < N"
    then have "Suc b * HW \<le> N * HW" by (intro mult_le_mono1) simp
    then show "b * HW + HW \<le> N * HW" by simp
  qed
  have uni: "\<And>ys. ys \<in> set ?blocks \<Longrightarrow> length ys = 2 * HW"
  proof -
    fix ys assume "ys \<in> set ?blocks"
    then obtain b where b: "b < N"
      and ys: "ys = take HW (drop (b * HW) o0) @ take HW (drop (b * HW) o1)" by auto
    show "length ys = 2 * HW" using inb [OF b] assms by (simp add: ys)
  qed
  show "length (concat_channels N HW o0 o1) = N * 2 * HW"
    unfolding concat_channels_def using concat_uniform(1) [of ?blocks "2 * HW", OF uni] by simp
  {
    assume b: "b < N" and r: "r < HW"
    have "concat ?blocks ! (b * (2 * HW) + r) = ?blocks ! b ! r"
      using b r by (intro concat_uniform(2) uni) simp_all
    also have "\<dots> = o0 ! (b * HW + r)"
      using b r inb [OF b] assms by (simp add: nth_append)
    finally show "concat_channels N HW o0 o1 ! ((b * 2 + 0) * HW + r) = o0 ! (b * HW + r)"
      by (simp add: concat_channels_def algebra_simps)
  }
  {
    assume b: "b < N" and r: "r < HW"
    have "concat ?blocks ! (b * (2 * HW) + (HW + r)) = ?blocks ! b ! (HW + r)"
      using b r by (intro concat_uniform(2) uni) simp_all
    also have "\<dots> = o1 ! (b * HW + r)"
      using b r inb [OF b] assms by (simp add: nth_append)
    finally show "concat_channels N HW o0 o1 ! ((b * 2 + 1) * HW + r) = o1 ! (b * HW + r)"
      by (simp add: concat_channels_def algebra_simps)
  }
qed

lemma radix_split:
  assumes "i < Q * (W :: nat)"
  shows "i div W < Q" and "i mod W < W" and "i = (i div W) * W + i mod W"
proof -
  have W: "0 < W" using assms by (cases W) simp_all
  show "i div W < Q" using assms by (simp add: less_mult_imp_div_less)
  show "i mod W < W" using W by simp
  show "i = (i div W) * W + i mod W" by simp
qed

lemma flat_index_surj:
  assumes "i < N * C * H * W"
  shows "\<exists>b c y x. b < N \<and> c < C \<and> y < H \<and> x < W \<and> i = flat_index C H W b c y x"
proof -
  note 1 = radix_split [OF assms]
  note 2 = radix_split [OF 1(1)]
  note 3 = radix_split [OF 2(1)]
  have "i = flat_index C H W (i div W div H div C) (i div W div H mod C) (i div W mod H) (i mod W)"
    unfolding flat_index_def using 1(3) 2(3) 3(3) by simp
  then show ?thesis using 1(2) 2(2) 3(1,2) by blast
qed

lemma list_eq_by_flat_index:
  assumes "length xs = N * C * H * W" "length ys = N * C * H * W"
      and "\<And>b c y x. b < N \<Longrightarrow> c < C \<Longrightarrow> y < H \<Longrightarrow> x < W \<Longrightarrow>
             xs ! flat_index C H W b c y x = ys ! flat_index C H W b c y x"
  shows "xs = ys"
proof (rule nth_equalityI)
  show "length xs = length ys" using assms(1,2) by simp
  fix i assume "i < length xs"
  then have "i < N * C * H * W" using assms(1) by simp
  from flat_index_surj [OF this] obtain b c y x
    where "b < N" "c < C" "y < H" "x < W" "i = flat_index C H W b c y x" by blast
  then show "xs ! i = ys ! i" using assms(3) by simp
qed

lemma for_each_cong_body:
  assumes "\<And>i s. i \<in> set xs \<Longrightarrow> f i s = g i s"
  shows "for_each xs f s = for_each xs g s"
  using assms
proof (induction xs arbitrary: s)
  case Nil
  then show ?case by simp
next
  case (Cons i xs)
  have "f i s = g i s" by (rule Cons.prems) simp
  moreover have "\<And>t. for_each xs f t = for_each xs g t"
    by (rule Cons.IH) (simp add: Cons.prems)
  ultimately show ?case by (cases "g i s") simp_all
qed

lemma bind_Inr_right [simp]: "bind m Inr = m"
  by (cases m) simp_all

lemma read_at_take_drop:
  assumes "unat i = m + unat j" "unat j < n"
  shows "read_at (take n (drop m xs)) j = read_at xs i"
proof (cases "m + unat j < length xs")
  case True
  then have "m \<le> length xs" by simp
  then show ?thesis using True assms by (simp add: read_at_def nth_drop)
next
  case False
  then show ?thesis using assms by (simp add: read_at_def)
qed

lemma filterIndex_of_nat:
  "filterIndex a cOutput cInput dm yFilter xFilter =
   of_nat (flat_index (unat (channelsInput a)) (unat (heightFilter a)) (unat (widthFilter a))
            (unat (if depthwise a then dm else cOutput)) (unat cInput) (unat yFilter) (unat xFilter))"
  by (simp add: filterIndex_def flat_index_def algebra_simps)

lemma two_channel_locals:
  assumes "two_channel_depthwise a"
  shows "depthwise a" "depthMult a = 1" "channelsInput a = 2" "channelsOutput a = 2"
  using assms
  by (simp_all add: two_channel_depthwise_def depthMult_def channelsInput_def channelsOutput_def)

lemma channel_args_locals:
  "\<not> depthwise (channel_args a c)" "depthMult (channel_args a c) = 1"
  "channelsInput (channel_args a c) = 1" "channelsOutput (channel_args a c) = 1"
  "batchSize (channel_args a c) = batchSize a"
  "heightOutput (channel_args a c) = heightOutput a" "widthOutput (channel_args a c) = widthOutput a"
  "heightInput (channel_args a c) = heightInput a" "widthInput (channel_args a c) = widthInput a"
  "heightFilter (channel_args a c) = heightFilter a" "widthFilter (channel_args a c) = widthFilter a"
  "paddingTop (channel_args a c) = paddingTop a" "paddingLeft (channel_args a c) = paddingLeft a"
  "hStride (channel_args a c) = hStride a" "xStride (channel_args a c) = xStride a"
  "biasEnabled (channel_args a c) = biasEnabled a"
  "inputOffset (channel_args a c) = inputOffset a" "filterOffset (channel_args a c) = filterOffset a"
  "outputOffset (channel_args a c) = outputOffset a"
  "inputScale (channel_args a c) = inputScale a" "filterScale (channel_args a c) = filterScale a"
  "outputScale (channel_args a c) = outputScale a"
  by (simp_all add: channel_args_def depthMult_def channelsInput_def channelsOutput_def
        batchSize_def heightOutput_def widthOutput_def heightInput_def widthInput_def
        heightFilter_def widthFilter_def paddingTop_def paddingLeft_def hStride_def xStride_def
        biasEnabled_def)

lemma channel_args_buffers:
  "inputData (channel_args a c) =
     channel_slice (unat (batchSize a)) (unat (channelsInput a))
       (unat (heightInput a) * unat (widthInput a)) (unat c) (inputData a)"
  "filterData (channel_args a c) =
     take (unat (heightFilter a) * unat (widthFilter a))
       (drop (unat c * (unat (heightFilter a) * unat (widthFilter a))) (filterData a))"
  "biasData (channel_args a c) = map_option (\<lambda>bias. take 1 (drop (unat c) bias)) (biasData a)"
  by (simp_all add: channel_args_def)

lemma in_padding_channel_args: "in_padding (channel_args a c) y x = in_padding a y x"
  by (simp add: in_padding_def channel_args_locals)

lemma unat_two: "c < (2 :: u32) \<Longrightarrow> unat c < 2"
  by (simp add: word_less_nat_alt)

lemma flat_index_two: "flat_index 2 H W b c y x = (b * 2 + c) * (H * W) + (y * W + x)"
  by (simp add: flat_index_def algebra_simps)

lemma flat_index_one: "flat_index (Suc 0) H W b 0 y x = b * (H * W) + (y * W + x)"
  by (simp add: flat_index_def algebra_simps)

lemma flat_index_filter: "flat_index C H W 0 c y x = c * (H * W) + (y * W + x)"
  by (simp add: flat_index_def algebra_simps)

lemma filterValue_channel:
  assumes tc: "two_channel_depthwise a"
      and fits: "2 * (unat (heightFilter a) * unat (widthFilter a)) \<le> 2 ^ 32"
      and r: "c < 2" "yFilter < heightFilter a" "xFilter < widthFilter a"
  shows "filterValue_at (channel_args a c) (filterIndex (channel_args a c) 0 0 0 yFilter xFilter) =
         filterValue_at a (filterIndex a c c 0 yFilter xFilter)"
proof -
  let ?kH = "unat (heightFilter a)" and ?kW = "unat (widthFilter a)"
  let ?j = "unat yFilter * ?kW + unat xFilter"
  have y: "unat yFilter < ?kH" and x: "unat xFilter < ?kW" and c: "unat c < 2"
    using r by (simp_all add: word_less_nat_alt)
  have j: "?j < ?kH * ?kW" by (rule radix_less [OF x y])
  have i: "unat c * (?kH * ?kW) + ?j < 2 * (?kH * ?kW)"
    using radix_less [OF j c] by (simp add: algebra_simps)
  have ej: "filterIndex (channel_args a c) 0 0 0 yFilter xFilter =
            of_nat (flat_index (Suc 0) ?kH ?kW 0 0 (unat yFilter) (unat xFilter))"
    by (simp add: filterIndex_of_nat channel_args_locals)
  have "?j < 2 ^ LENGTH(32)" using j fits by simp
  then have uj: "unat (filterIndex (channel_args a c) 0 0 0 yFilter xFilter) = ?j"
    by (intro of_nat_inverse) (simp_all add: ej flat_index_one)
  have ei: "filterIndex a c c 0 yFilter xFilter =
            of_nat (flat_index 2 ?kH ?kW 0 (unat c) (unat yFilter) (unat xFilter))"
    by (simp add: filterIndex_of_nat two_channel_locals [OF tc])
  have "unat c * (?kH * ?kW) + ?j < 2 ^ LENGTH(32)" using i fits by simp
  then have ui: "unat (filterIndex a c c 0 yFilter xFilter) = unat c * (?kH * ?kW) + ?j"
    by (intro of_nat_inverse) (simp_all add: ei flat_index_filter)
  have "read_at (filterData (channel_args a c)) (filterIndex (channel_args a c) 0 0 0 yFilter xFilter)
        = read_at (filterData a) (filterIndex a c c 0 yFilter xFilter)"
    unfolding channel_args_buffers
    by (rule read_at_take_drop) (simp_all add: ui uj j)
  then show ?thesis by (simp add: filterValue_at_def channel_args_locals)
qed

lemma input_size_channel_args:
  assumes "two_channel_depthwise a"
  shows "input_size a = unat (batchSize a) * 2 * unat (heightInput a) * unat (widthInput a)"
    and "input_size (channel_args a c) = unat (batchSize a) * unat (heightInput a) * unat (widthInput a)"
  by (simp_all add: input_size_def channel_args_locals two_channel_locals [OF assms])

lemma inputValue_channel:
  assumes tc: "two_channel_depthwise a"
      and len: "length (inputData a) = input_size a" and fits: "input_size a \<le> 2 ^ 32"
      and r: "b < batchSize a" "c < 2"
  shows "inputValue_at (channel_args a c) b 0 yInput xInput = inputValue_at a b c yInput xInput"
proof (cases "in_padding a yInput xInput")
  case True
  then show ?thesis by (simp add: inputValue_at_def in_padding_channel_args)
next
  case False
  let ?N = "unat (batchSize a)" and ?H = "unat (heightInput a)" and ?W = "unat (widthInput a)"
  let ?y = "unat yInput - unat (paddingTop a)" and ?x = "unat xInput - unat (paddingLeft a)"
  let ?A = "channel_args a c"
  from False have reg: "\<not> (yInput < paddingTop a)" "\<not> (yInput \<ge> heightInput a + paddingTop a)"
    "\<not> (xInput < paddingLeft a)" "\<not> (xInput \<ge> widthInput a + paddingLeft a)"
    by (simp_all add: in_padding_def)
  have y: "?y < ?H" by (rule in_region_axis(3) [OF reg(1,2)])
  have x: "?x < ?W" by (rule in_region_axis(3) [OF reg(3,4)])
  have rr: "?y * ?W + ?x < ?H * ?W" by (rule radix_less [OF x y])
  have b: "unat b < ?N" and c: "unat c < 2" using r by (simp_all add: word_less_nat_alt)
  have cA: "(0 :: u32) < channelsInput ?A" by (simp add: channel_args_locals)
  have ca: "c < channelsInput a" using r(2) by (simp add: two_channel_locals [OF tc])
  have padA: "\<not> in_padding ?A yInput xInput" using False by (simp add: in_padding_channel_args)
  have fitsA: "input_size ?A \<le> 2 ^ 32"
    using fits by (simp add: input_size_channel_args [OF tc])
  have bA: "b < batchSize ?A" using r(1) by (simp add: channel_args_locals)
  have ia: "unat (inputIndex a b c yInput xInput) = (unat b * 2 + unat c) * (?H * ?W) + (?y * ?W + ?x)"
    using unat_inputIndex(1) [OF False fits r(1) ca]
    by (simp add: two_channel_locals [OF tc] flat_index_two)
  have iA: "unat (inputIndex ?A b 0 yInput xInput) = unat b * (?H * ?W) + (?y * ?W + ?x)"
    using unat_inputIndex(1) [OF padA fitsA bA cA]
    by (simp add: channel_args_locals flat_index_one)
  have la: "unat (inputIndex a b c yInput xInput) < length (inputData a)"
    using unat_inputIndex(2) [OF False fits r(1) ca] len by simp
  have lenx: "length (inputData a) = ?N * 2 * (?H * ?W)"
    using len by (simp add: input_size_channel_args [OF tc])
  have lenA: "length (inputData ?A) = ?N * (?H * ?W)"
    unfolding channel_args_buffers two_channel_locals [OF tc]
    using channel_slice_props(1) [OF lenx c] by simp
  have lA: "unat (inputIndex ?A b 0 yInput xInput) < length (inputData ?A)"
    using unat_inputIndex(2) [OF padA fitsA bA cA] lenA
    by (simp add: input_size_channel_args [OF tc])
  have "inputData ?A ! (unat b * (?H * ?W) + (?y * ?W + ?x)) =
        inputData a ! ((unat b * 2 + unat c) * (?H * ?W) + (?y * ?W + ?x))"
    unfolding channel_args_buffers two_channel_locals [OF tc]
    using channel_slice_props(2) [OF lenx c b rr] by simp
  then have "read_at (inputData ?A) (inputIndex ?A b 0 yInput xInput) =
             read_at (inputData a) (inputIndex a b c yInput xInput)"
    using la lA by (simp add: read_at_def ia iA)
  then show ?thesis
    using False padA by (simp add: inputValue_at_def channel_args_locals)
qed

lemma window_step_channel:
  assumes tc: "two_channel_depthwise a"
      and ffits: "2 * (unat (heightFilter a) * unat (widthFilter a)) \<le> 2 ^ 32"
      and len: "length (inputData a) = input_size a" and fits: "input_size a \<le> 2 ^ 32"
      and r: "b < batchSize a" "c < 2" "yFilter < heightFilter a" "xFilter < widthFilter a"
  shows "window_step (channel_args a c) b 0 y x 0 0 yFilter xFilter acc =
         window_step a b c y x c 0 yFilter xFilter acc"
  unfolding window_step_def
  by (simp only: filterValue_channel [OF tc ffits r(2,3,4)]
        inputValue_channel [OF tc len fits r(1,2)] channel_args_locals)

lemma window_loops_channel:
  assumes tc: "two_channel_depthwise a"
      and ffits: "2 * (unat (heightFilter a) * unat (widthFilter a)) \<le> 2 ^ 32"
      and len: "length (inputData a) = input_size a" and fits: "input_size a \<le> 2 ^ 32"
      and r: "b < batchSize a" "c < 2"
  shows "window_loops (channel_args a c) b 0 y x 0 0 acc = window_loops a b c y x c 0 acc"
  unfolding window_loops_def channel_args_locals
proof (rule for_each_cong_body)
  fix yFilter s assume "yFilter \<in> set (range_u32 (heightFilter a))"
  then have yF: "yFilter < heightFilter a" by (simp add: set_range_u32)
  show "for_each (range_u32 (widthFilter a))
          (window_step (channel_args a c) b 0 y x 0 0 yFilter) s =
        for_each (range_u32 (widthFilter a)) (window_step a b c y x c 0 yFilter) s"
  proof (rule for_each_cong_body)
    fix xFilter t assume "xFilter \<in> set (range_u32 (widthFilter a))"
    then have xF: "xFilter < widthFilter a" by (simp add: set_range_u32)
    show "window_step (channel_args a c) b 0 y x 0 0 yFilter xFilter t =
          window_step a b c y x c 0 yFilter xFilter t"
      by (rule window_step_channel [OF tc ffits len fits r yF xF])
  qed
qed

lemma range_u32_one: "range_u32 1 = [0]"
  by (simp add: range_u32_def)

lemma for_each_Nil_fun: "for_each [] body = Inr"
  by (rule ext) simp

lemma window_sum_channel:
  assumes tc: "two_channel_depthwise a"
      and ffits: "2 * (unat (heightFilter a) * unat (widthFilter a)) \<le> 2 ^ 32"
      and len: "length (inputData a) = input_size a" and fits: "input_size a \<le> 2 ^ 32"
      and r: "b < batchSize a" "c < 2"
  shows "window_sum (channel_args a c) b 0 y x = window_sum a b c y x"
proof -
  have "window_sum (channel_args a c) b 0 y x = window_loops (channel_args a c) b 0 y x 0 0 0"
    by (simp add: window_sum_def channel_args_locals range_u32_one for_each_Nil_fun)
  also have "\<dots> = window_loops a b c y x c 0 0"
    by (rule window_loops_channel [OF tc ffits len fits r])
  also have "\<dots> = window_sum a b c y x"
    by (simp add: window_sum_def two_channel_locals [OF tc])
  finally show ?thesis .
qed

lemma add_bias_channel: "add_bias (channel_args a c) 0 = add_bias a c"
proof (rule ext)
  fix acc
  have "read_bias (channel_args a c) 0 = read_bias a c"
  proof (cases "biasData a")
    case None
    then show ?thesis by (simp add: read_bias_def channel_args_buffers)
  next
    case (Some bias)
    have "read_at (take 1 (drop (unat c) bias)) 0 = read_at bias c"
      by (rule read_at_take_drop) simp_all
    then show ?thesis using Some by (simp add: read_bias_def channel_args_buffers)
  qed
  then show "add_bias (channel_args a c) 0 acc = add_bias a c acc"
    by (simp add: add_bias_def channel_args_locals)
qed

lemma requantize_channel: "requantize Q (channel_args a c) acc = requantize Q a acc"
  by (simp add: requantize_def channel_args_locals)

lemma conv_element_channel:
  assumes tc: "two_channel_depthwise a"
      and ffits: "2 * (unat (heightFilter a) * unat (widthFilter a)) \<le> 2 ^ 32"
      and len: "length (inputData a) = input_size a" and fits: "input_size a \<le> 2 ^ 32"
      and r: "b < batchSize a" "c < 2"
  shows "conv_element Q (channel_args a c) b 0 y x = conv_element Q a b c y x"
proof -
  have cA: "(0 :: u32) < channelsOutput (channel_args a c)" by (simp add: channel_args_locals)
  have ca: "c < channelsOutput a" using r(2) by (simp add: two_channel_locals [OF tc])
  show ?thesis
    unfolding conv_element_eq [OF cA] conv_element_eq [OF ca]
    by (simp only: window_sum_channel [OF tc ffits len fits r] add_bias_channel
          requantize_channel)
qed

lemma stores_exist:
  assumes "\<And>k. k \<in> set ks \<Longrightarrow> \<exists>v. val k = Some (Inr v)"
      and "\<And>k. k \<in> set ks \<Longrightarrow> unat (idx k) < length s0"
  shows "\<exists>s1. for_each_opt ks (store_at idx val) s0 = Some (Inr s1)"
  using assms
proof (induction ks arbitrary: s0)
  case Nil
  then show ?case by simp
next
  case (Cons k ks)
  obtain v where v: "val k = Some (Inr v)" using Cons.prems(1) [of k] by auto
  have inb: "unat (idx k) < length s0" using Cons.prems(2) [of k] by simp
  let ?s = "s0[unat (idx k) := v]"
  have "\<exists>s1. for_each_opt ks (store_at idx val) ?s = Some (Inr s1)"
  proof (rule Cons.IH)
    fix j assume j: "j \<in> set ks"
    show "\<exists>v. val j = Some (Inr v)" using Cons.prems(1) [of j] j by simp
    show "unat (idx j) < length ?s" using Cons.prems(2) [of j] j by simp
  qed
  then obtain s1 where s1: "for_each_opt ks (store_at idx val) ?s = Some (Inr s1)" by blast
  have "store_at idx val k s0 = Some (Inr ?s)"
    using v inb by (simp add: store_at_def write_at_def)
  then show ?case using s1 by simp
qed

lemma ConvImpl_success_iff:
  assumes fits: "output_size a \<le> 2 ^ 32" and len: "output_size a \<le> length out0"
  shows "(\<exists>out. ConvImpl Q a out0 = Some (Inr out)) \<longleftrightarrow>
         \<not> (biasEnabled a \<and> biasData a = None) \<and>
         (\<forall>b c y x. b < batchSize a \<longrightarrow> c < channelsOutput a \<longrightarrow> y < heightOutput a \<longrightarrow>
            x < widthOutput a \<longrightarrow> (\<exists>v. conv_element Q a b c y x = Some (Inr v)))"
proof
  assume "\<exists>out. ConvImpl Q a out0 = Some (Inr out)"
  then obtain out where run: "ConvImpl Q a out0 = Some (Inr out)" by blast
  then have "\<not> (biasEnabled a \<and> biasData a = None)"
    by (auto simp: ConvImpl_def split: if_splits)
  then show "\<not> (biasEnabled a \<and> biasData a = None) \<and>
         (\<forall>b c y x. b < batchSize a \<longrightarrow> c < channelsOutput a \<longrightarrow> y < heightOutput a \<longrightarrow>
            x < widthOutput a \<longrightarrow> (\<exists>v. conv_element Q a b c y x = Some (Inr v)))"
    using ConvImpl_elements(1) [OF run fits] by blast
next
  assume h: "\<not> (biasEnabled a \<and> biasData a = None) \<and>
         (\<forall>b c y x. b < batchSize a \<longrightarrow> c < channelsOutput a \<longrightarrow> y < heightOutput a \<longrightarrow>
            x < widthOutput a \<longrightarrow> (\<exists>v. conv_element Q a b c y x = Some (Inr v)))"
  have "\<exists>s1. for_each_opt (coords a)
             (store_at (\<lambda>(b, c, y, x). outputIndex a b c y x)
                       (\<lambda>(b, c, y, x). conv_element Q a b c y x)) out0 = Some (Inr s1)"
  proof (rule stores_exist)
    fix k assume k: "k \<in> set (coords a)"
    obtain b c y x where K: "k = (b, c, y, x)" by (cases k) auto
    from k have r: "b < batchSize a" "c < channelsOutput a" "y < heightOutput a" "x < widthOutput a"
      by (simp_all add: K set_coords)
    show "\<exists>v. (case k of (b, c, y, x) \<Rightarrow> conv_element Q a b c y x) = Some (Inr v)"
      using h r by (simp add: K)
    have "unat (outputIndex a b c y x) < output_size a"
      unfolding unat_outputIndex [OF fits [unfolded output_size_def] r] output_size_def
      using r by (intro flat_index_less) (simp_all add: word_less_nat_alt)
    then show "unat (case k of (b, c, y, x) \<Rightarrow> outputIndex a b c y x) < length out0"
      using len by (simp add: K)
  qed
  then show "\<exists>out. ConvImpl Q a out0 = Some (Inr out)"
    using h by (simp add: ConvImpl_flat)
qed

lemma word_of_index:
  assumes "k < unat (n :: u32)"
  obtains w :: u32 where "w < n" and "unat w = k"
proof
  show "unat (of_nat k :: u32) = k" by (rule unat_of_nat_below [OF assms])
  then show "(of_nat k :: u32) < n" using assms by (simp add: word_less_nat_alt)
qed

lemma output_size_channel_args:
  assumes "two_channel_depthwise a"
  shows "output_size a = unat (batchSize a) * 2 * unat (heightOutput a) * unat (widthOutput a)"
    and "output_size (channel_args a c) =
         unat (batchSize a) * (unat (heightOutput a) * unat (widthOutput a))"
  by (simp_all add: output_size_def channel_args_locals two_channel_locals [OF assms])

lemma less_two_cases: "c < (2 :: u32) \<Longrightarrow> c = 0 \<or> c = 1"
proof -
  assume "c < 2"
  then have "unat c < 2" by (simp add: word_less_nat_alt)
  then have "unat c = unat (0 :: u32) \<or> unat c = unat (1 :: u32)" by auto
  then show ?thesis by (simp only: word_unat_eq_iff [symmetric])
qed

lemma less_one_zero: "c < (1 :: u32) \<Longrightarrow> c = 0"
  by (simp add: word_less_nat_alt unat_eq_0)

lemma channel_runs_succeed:
  assumes tc: "two_channel_depthwise a"
      and ffits: "2 * (unat (heightFilter a) * unat (widthFilter a)) \<le> 2 ^ 32"
      and len: "length (inputData a) = input_size a" and fits: "input_size a \<le> 2 ^ 32"
      and olen: "length out0 = output_size a" and ofits: "output_size a \<le> 2 ^ 32"
      and blen: "length buf = output_size (channel_args a c)"
      and run: "ConvImpl Q a out0 = Some (Inr out)"
      and c: "c < 2"
  shows "\<exists>oc. ConvImpl Q (channel_args a c) buf = Some (Inr oc)"
proof -
  let ?A = "channel_args a c"
  have oa: "output_size a \<le> length out0" using olen by simp
  from run have ok: "\<not> (biasEnabled a \<and> biasData a = None)"
    and els: "\<And>b c y x. b < batchSize a \<Longrightarrow> c < channelsOutput a \<Longrightarrow> y < heightOutput a \<Longrightarrow>
            x < widthOutput a \<Longrightarrow> \<exists>v. conv_element Q a b c y x = Some (Inr v)"
    using ConvImpl_success_iff [OF ofits oa, of Q] by blast+
  have fA: "output_size ?A \<le> 2 ^ 32"
    using ofits by (simp add: output_size_channel_args [OF tc])
  have lA: "output_size ?A \<le> length buf" using blen by simp
  have okA: "\<not> (biasEnabled ?A \<and> biasData ?A = None)"
    using ok by (simp add: channel_args_locals channel_args_buffers)
  have ca: "c < channelsOutput a" using c by (simp add: two_channel_locals [OF tc])
  have "\<forall>b c' y x. b < batchSize ?A \<longrightarrow> c' < channelsOutput ?A \<longrightarrow> y < heightOutput ?A \<longrightarrow>
            x < widthOutput ?A \<longrightarrow> (\<exists>v. conv_element Q ?A b c' y x = Some (Inr v))"
  proof (intro allI impI)
    fix b c' y x
    assume r: "b < batchSize ?A" "c' < channelsOutput ?A" "y < heightOutput ?A" "x < widthOutput ?A"
    then have r': "b < batchSize a" "y < heightOutput a" "x < widthOutput a" and c': "c' = 0"
      by (simp_all add: channel_args_locals less_one_zero)
    show "\<exists>v. conv_element Q ?A b c' y x = Some (Inr v)"
      unfolding c' conv_element_channel [OF tc ffits len fits r'(1) c]
      by (rule els [OF r'(1) ca r'(2,3)])
  qed
  then show ?thesis using ConvImpl_success_iff [OF fA lA, of Q] okA by blast
qed

lemma channel_run_element:
  assumes tc: "two_channel_depthwise a"
      and ffits: "2 * (unat (heightFilter a) * unat (widthFilter a)) \<le> 2 ^ 32"
      and len: "length (inputData a) = input_size a" and fits: "input_size a \<le> 2 ^ 32"
      and ofits: "output_size a \<le> 2 ^ 32"
      and run: "ConvImpl Q a out0 = Some (Inr out)"
      and runc: "ConvImpl Q (channel_args a c) buf = Some (Inr oc)"
      and c: "c < 2"
      and r: "b < unat (batchSize a)" "y < unat (heightOutput a)" "x < unat (widthOutput a)"
  shows "out ! ((b * 2 + unat c) * (unat (heightOutput a) * unat (widthOutput a)) +
                 (y * unat (widthOutput a) + x)) =
         oc ! (b * (unat (heightOutput a) * unat (widthOutput a)) + (y * unat (widthOutput a) + x))"
proof -
  let ?A = "channel_args a c"
  obtain b' where b': "b' < batchSize a" "unat b' = b" by (rule word_of_index [OF r(1)])
  obtain y' where y': "y' < heightOutput a" "unat y' = y" by (rule word_of_index [OF r(2)])
  obtain x' where x': "x' < widthOutput a" "unat x' = x" by (rule word_of_index [OF r(3)])
  have ca: "c < channelsOutput a" using c by (simp add: two_channel_locals [OF tc])
  have fA: "output_size ?A \<le> 2 ^ 32"
    using ofits by (simp add: output_size_channel_args [OF tc])
  have rA: "b' < batchSize ?A" "(0 :: u32) < channelsOutput ?A" "y' < heightOutput ?A"
    "x' < widthOutput ?A"
    using b' y' x' by (simp_all add: channel_args_locals)
  have ia: "unat (outputIndex a b' c y' x') =
            (b * 2 + unat c) * (unat (heightOutput a) * unat (widthOutput a)) +
              (y * unat (widthOutput a) + x)"
    unfolding unat_outputIndex [OF ofits [unfolded output_size_def] b'(1) ca y'(1) x'(1)]
    by (simp add: two_channel_locals [OF tc] flat_index_two b' y' x')
  have iA: "unat (outputIndex ?A b' 0 y' x') =
            b * (unat (heightOutput a) * unat (widthOutput a)) + (y * unat (widthOutput a) + x)"
    unfolding unat_outputIndex [OF fA [unfolded output_size_def] rA]
    by (simp add: channel_args_locals flat_index_one b' y' x')
  have "Some (Inr (out ! unat (outputIndex a b' c y' x')) :: error + u8) =
        conv_element Q a b' c y' x'"
    using ConvImpl_elements(1) [OF run ofits b'(1) ca y'(1) x'(1)] by simp
  also have "\<dots> = conv_element Q ?A b' 0 y' x'"
    by (rule conv_element_channel [OF tc ffits len fits b'(1) c, symmetric])
  also have "\<dots> = Some (Inr (oc ! unat (outputIndex ?A b' 0 y' x')))"
    by (rule ConvImpl_elements(1) [OF runc fA rA])
  finally show ?thesis by (simp add: ia iA)
qed

lemma ConvImpl_length:
  assumes run: "ConvImpl Q a out0 = Some (Inr out)" and fits: "output_size a \<le> 2 ^ 32"
  shows "length out = length out0"
proof -
  from run have loop: "for_each_opt (coords a)
             (store_at (\<lambda>(b, c, y, x). outputIndex a b c y x)
                       (\<lambda>(b, c, y, x). conv_element Q a b c y x)) out0 = Some (Inr out)"
    by (simp add: ConvImpl_flat split: if_splits)
  from stores_result [OF loop distinct_outputIndex [OF fits]] show ?thesis by blast
qed

lemma depthwise_is_concat:
  assumes tc: "two_channel_depthwise a"
      and ffits: "2 * (unat (heightFilter a) * unat (widthFilter a)) \<le> 2 ^ 32"
      and len: "length (inputData a) = input_size a" and fits: "input_size a \<le> 2 ^ 32"
      and olen: "length out0 = output_size a" and ofits: "output_size a \<le> 2 ^ 32"
      and blen: "length buf0 = output_size (channel_args a 0)"
                "length buf1 = output_size (channel_args a 1)"
      and run: "ConvImpl Q a out0 = Some (Inr out)"
      and run0: "ConvImpl Q (channel_args a 0) buf0 = Some (Inr o0)"
      and run1: "ConvImpl Q (channel_args a 1) buf1 = Some (Inr o1)"
  shows "out = concat_channels (unat (batchSize a))
                 (unat (heightOutput a) * unat (widthOutput a)) o0 o1"
proof -
  let ?N = "unat (batchSize a)" and ?H = "unat (heightOutput a)" and ?W = "unat (widthOutput a)"
  let ?cat = "concat_channels ?N (?H * ?W) o0 o1"
  have fA: "\<And>c. output_size (channel_args a c) \<le> 2 ^ 32"
    using ofits by (simp add: output_size_channel_args [OF tc])
  have l0: "length o0 = ?N * (?H * ?W)"
    using ConvImpl_length [OF run0 fA] blen(1) by (simp add: output_size_channel_args [OF tc])
  have l1: "length o1 = ?N * (?H * ?W)"
    using ConvImpl_length [OF run1 fA] blen(2) by (simp add: output_size_channel_args [OF tc])
  have lo: "length out = ?N * 2 * ?H * ?W"
    using ConvImpl_length [OF run ofits] olen by (simp add: output_size_channel_args [OF tc])
  have lc: "length ?cat = ?N * 2 * ?H * ?W"
    using concat_channels_props(1) [OF l0 l1] by (simp add: algebra_simps)
  show ?thesis
  proof (rule list_eq_by_flat_index [OF lo lc])
    fix b c y x :: nat
    assume r: "b < ?N" "c < 2" "y < ?H" "x < ?W"
    have rr: "y * ?W + x < ?H * ?W" by (rule radix_less [OF r(4,3)])
    from r(2) have "c = 0 \<or> c = 1" by auto
    then show "out ! flat_index 2 ?H ?W b c y x = ?cat ! flat_index 2 ?H ?W b c y x"
    proof
      assume c: "c = 0"
      have "out ! ((b * 2 + unat (0 :: u32)) * (?H * ?W) + (y * ?W + x)) =
            o0 ! (b * (?H * ?W) + (y * ?W + x))"
        by (rule channel_run_element [OF tc ffits len fits ofits run run0 _ r(1,3,4)]) simp
      also have "\<dots> = ?cat ! ((b * 2 + 0) * (?H * ?W) + (y * ?W + x))"
        by (rule concat_channels_props(2) [OF l0 l1 r(1) rr, symmetric])
      finally show ?thesis by (simp add: c flat_index_two)
    next
      assume c: "c = 1"
      have "out ! ((b * 2 + unat (1 :: u32)) * (?H * ?W) + (y * ?W + x)) =
            o1 ! (b * (?H * ?W) + (y * ?W + x))"
        by (rule channel_run_element [OF tc ffits len fits ofits run run1 _ r(1,3,4)]) simp
      also have "\<dots> = ?cat ! ((b * 2 + 1) * (?H * ?W) + (y * ?W + x))"
        by (rule concat_channels_props(3) [OF l0 l1 r(1) rr, symmetric])
      finally show ?thesis by (simp add: c flat_index_two)
    qed
  qed
qed

text \<open>
  C4. For a depthwise job with depth multiplier 1 on a two-channel input, whatever the
  kernel size, the strides, the paddings, the bias and the quantization parameters (the
  buffers having the sizes their shapes describe, none above \<open>2 ^ 32\<close> elements): the
  kernel returns the buffer \<open>out\<close> exactly when the standard kernel, run on channel 0 alone
  and on channel 1 alone, returns two buffers whose concatenation along the channel
  dimension is \<open>out\<close>.
\<close>

theorem depthwise_equals_per_channel_standard:
  assumes tc: "two_channel_depthwise a"
      and ffits: "2 * (unat (heightFilter a) * unat (widthFilter a)) \<le> 2 ^ 32"
      and len: "length (inputData a) = input_size a" and fits: "input_size a \<le> 2 ^ 32"
      and olen: "length out0 = output_size a" and ofits: "output_size a \<le> 2 ^ 32"
      and blen: "length buf0 = output_size (channel_args a 0)"
                "length buf1 = output_size (channel_args a 1)"
  shows "ConvImpl Q a out0 = Some (Inr out) \<longleftrightarrow>
         (\<exists>o0 o1. ConvImpl Q (channel_args a 0) buf0 = Some (Inr o0) \<and>
                  ConvImpl Q (channel_args a 1) buf1 = Some (Inr o1) \<and>
                  out = concat_channels (unat (batchSize a))
                          (unat (heightOutput a) * unat (widthOutput a)) o0 o1)"
proof
  assume run: "ConvImpl Q a out0 = Some (Inr out)"
  obtain o0 where run0: "ConvImpl Q (channel_args a 0) buf0 = Some (Inr o0)"
    using channel_runs_succeed [OF tc ffits len fits olen ofits blen(1) run] by auto
  obtain o1 where run1: "ConvImpl Q (channel_args a 1) buf1 = Some (Inr o1)"
    using channel_runs_succeed [OF tc ffits len fits olen ofits blen(2) run] by auto
  show "\<exists>o0 o1. ConvImpl Q (channel_args a 0) buf0 = Some (Inr o0) \<and>
                  ConvImpl Q (channel_args a 1) buf1 = Some (Inr o1) \<and>
                  out = concat_channels (unat (batchSize a))
                          (unat (heightOutput a) * unat (widthOutput a)) o0 o1"
    using run0 run1 depthwise_is_concat [OF assms run run0 run1] by blast
next
  assume "\<exists>o0 o1. ConvImpl Q (channel_args a 0) buf0 = Some (Inr o0) \<and>
                  ConvImpl Q (channel_args a 1) buf1 = Some (Inr o1) \<and>
                  out = concat_channels (unat (batchSize a))
                          (unat (heightOutput a) * unat (widthOutput a)) o0 o1"
  then obtain o0 o1 where run0: "ConvImpl Q (channel_args a 0) buf0 = Some (Inr o0)"
    and run1: "ConvImpl Q (channel_args a 1) buf1 = Some (Inr o1)"
    and out: "out = concat_channels (unat (batchSize a))
                          (unat (heightOutput a) * unat (widthOutput a)) o0 o1"
    by blast
  have fA: "\<And>c. output_size (channel_args a c) \<le> 2 ^ 32"
    using ofits by (simp add: output_size_channel_args [OF tc])
  have oa: "output_size a \<le> length out0" using olen by simp
  have ok: "\<not> (biasEnabled a \<and> biasData a = None)"
  proof
    assume "biasEnabled a \<and> biasData a = None"
    then have "biasEnabled (channel_args a 0) \<and> biasData (channel_args a 0) = None"
      by (simp add: channel_args_locals channel_args_buffers)
    then show False using run0 by (simp add: ConvImpl_def)
  qed
  have "\<forall>b c y x. b < batchSize a \<longrightarrow> c < channelsOutput a \<longrightarrow> y < heightOutput a \<longrightarrow>
            x < widthOutput a \<longrightarrow> (\<exists>v. conv_element Q a b c y x = Some (Inr v))"
  proof (intro allI impI)
    fix b c y x
    assume r: "b < batchSize a" "c < channelsOutput a" "y < heightOutput a" "x < widthOutput a"
    then have c: "c < 2" by (simp add: two_channel_locals [OF tc])
    have rA: "\<And>c. b < batchSize (channel_args a c)" "\<And>c. (0 :: u32) < channelsOutput (channel_args a c)"
      "\<And>c. y < heightOutput (channel_args a c)" "\<And>c. x < widthOutput (channel_args a c)"
      using r by (simp_all add: channel_args_locals)
    from less_two_cases [OF c] show "\<exists>v. conv_element Q a b c y x = Some (Inr v)"
    proof
      assume z: "c = 0"
      show ?thesis
        using ConvImpl_elements(1) [OF run0 fA rA]
          conv_element_channel [OF tc ffits len fits r(1) c [unfolded z], of Q y x]
        by (simp add: z)
    next
      assume z: "c = 1"
      show ?thesis
        using ConvImpl_elements(1) [OF run1 fA rA]
          conv_element_channel [OF tc ffits len fits r(1) c [unfolded z], of Q y x]
        by (simp add: z)
    qed
  qed
  then obtain out' where run: "ConvImpl Q a out0 = Some (Inr out')"
    using ConvImpl_success_iff [OF ofits oa, of Q] ok by blast
  have "out' = out"
    unfolding out by (rule depthwise_is_concat [OF assms run run0 run1])
  then show "ConvImpl Q a out0 = Some (Inr out)" using run by simp
qed



theorem depthwise_equals_per_channel_standard_witness:
  "two_channel_depthwise two_channel_args \<and>
   2 * (unat (heightFilter two_channel_args) * unat (widthFilter two_channel_args)) \<le> 2 ^ 32 \<and>
   length (inputData two_channel_args) = input_size two_channel_args \<and>
   input_size two_channel_args \<le> 2 ^ 32 \<and>
   length (replicate 16 0 :: u8 list) = output_size two_channel_args \<and>
   output_size two_channel_args \<le> 2 ^ 32 \<and>
   length (replicate 8 0 :: u8 list) = output_size (channel_args two_channel_args 0) \<and>
   length (replicate 8 0 :: u8 list) = output_size (channel_args two_channel_args 1) \<and>
   ConvImpl unit_multiplier two_channel_args (replicate 16 0) =
     Some (Inr [22, 14, 11, 8, 20, 22, 16, 17, 70, 30, 19, 8, 36, 38, 24, 25]) \<and>
   ConvImpl unit_multiplier (channel_args two_channel_args 0) (replicate 8 0) =
     Some (Inr [22, 14, 11, 8, 70, 30, 19, 8]) \<and>
   ConvImpl unit_multiplier (channel_args two_channel_args 1) (replicate 8 0) =
     Some (Inr [20, 22, 16, 17, 36, 38, 24, 25]) \<and>
   [22, 14, 11, 8, 20, 22, 16, 17, 70, 30, 19, 8, 36, 38, 24, 25 :: u8] =
     concat_channels (unat (batchSize two_channel_args))
       (unat (heightOutput two_channel_args) * unat (widthOutput two_channel_args))
       [22, 14, 11, 8, 70, 30, 19, 8] [20, 22, 16, 17, 36, 38, 24, 25]"
proof -
  let ?a = two_channel_args
  let ?out = "[22, 14, 11, 8, 20, 22, 16, 17, 70, 30, 19, 8, 36, 38, 24, 25 :: u8]"
  have tc: "two_channel_depthwise ?a"
    by (simp add: two_channel_depthwise_def two_channel_args_def shape_def)
  have ffits: "2 * (unat (heightFilter ?a) * unat (widthFilter ?a)) \<le> 2 ^ 32"
    by (simp add: heightFilter_def widthFilter_def two_channel_args_def shape_def)
  have isz: "input_size ?a = 16"
    by (simp add: input_size_def batchSize_def channelsInput_def heightInput_def widthInput_def
          two_channel_args_def shape_def)
  have osz: "output_size ?a = 16"
    by (simp add: output_size_def batchSize_def channelsOutput_def channelsInput_def depthMult_def
          heightOutput_def widthOutput_def two_channel_args_def shape_def)
  have csz: "\<And>c. output_size (channel_args ?a c) = 8"
    by (simp add: output_size_def batchSize_def channelsOutput_def
          heightOutput_def widthOutput_def channel_args_def two_channel_args_def shape_def)
  have len: "length (inputData ?a) = input_size ?a" by (simp add: isz) (simp add: two_channel_args_def)
  have fits: "input_size ?a \<le> 2 ^ 32" by (simp add: isz)
  have olen: "length (replicate 16 0 :: u8 list) = output_size ?a" by (simp add: osz)
  have ofits: "output_size ?a \<le> 2 ^ 32" by (simp add: osz)
  have blen: "length (replicate 8 0 :: u8 list) = output_size (channel_args ?a 0)"
    "length (replicate 8 0 :: u8 list) = output_size (channel_args ?a 1)"
    by (simp_all add: csz)
  have run: "ConvImpl unit_multiplier ?a (replicate 16 0) = Some (Inr ?out)"
    by code_simp
  have run0: "ConvImpl unit_multiplier (channel_args ?a 0) (replicate 8 0) =
                Some (Inr [22, 14, 11, 8, 70, 30, 19, 8])"
    by code_simp
  have run1: "ConvImpl unit_multiplier (channel_args ?a 1) (replicate 8 0) =
                Some (Inr [20, 22, 16, 17, 36, 38, 24, 25])"
    by code_simp
  from depthwise_equals_per_channel_standard [OF tc ffits len fits olen ofits blen,
      of unit_multiplier ?out] run
  obtain o0 o1 where "ConvImpl unit_multiplier (channel_args ?a 0) (replicate 8 0) = Some (Inr o0)"
    and "ConvImpl unit_multiplier (channel_args ?a 1) (replicate 8 0) = Some (Inr o1)"
    and "?out = concat_channels (unat (batchSize ?a))
                  (unat (heightOutput ?a) * unat (widthOutput ?a)) o0 o1"
    by blast
  then have cat: "?out = concat_channels (unat (batchSize ?a))
                  (unat (heightOutput ?a) * unat (widthOutput ?a))
                  [22, 14, 11, 8, 70, 30, 19, 8] [20, 22, 16, 17, 36, 38, 24, 25]"
    using run0 run1 by simp
  show ?thesis using tc ffits len fits olen ofits blen run run0 run1 cat by blast
qed

end
